theory Spec2Isabelle
  imports Main "HOL-Library.Char_ord" "HOL-Library.List_Lexorder" "HOL-Library.Sublist"
    "HOL-Library.AList"
begin

section \<open>Python strings\<close>

text \<open>
  A Python \<open>str\<close> is modelled as a \<open>string\<close>; a \<open>char\<close> stands for the code point of
  the same number, so the model covers text whose code points are below 256.  The
  order on strings is the lexicographic order by code point (\<open>Char_ord\<close> with
  \<open>List_Lexorder\<close>), which is how Python compares \<open>str\<close> values.
\<close>

definition LF :: char where "LF = CHR 0x0A"

definition CR :: char where "CR = CHR 0x0D"

definition TAB :: char where "TAB = CHR 0x09"

text \<open>\<open>str.isspace\<close> on one character, which is also the class \<open>\s\<close> of \<open>re\<close> on \<open>str\<close>
  patterns: U+0009..U+000D, U+001C..U+0020, U+0085, U+00A0.\<close>

definition is_space :: "char \<Rightarrow> bool" where
  "is_space c \<longleftrightarrow> c \<in> set [CHR 0x09, CHR 0x0A, CHR 0x0B, CHR 0x0C, CHR 0x0D,
     CHR 0x1C, CHR 0x1D, CHR 0x1E, CHR 0x1F, CHR 0x20, CHR 0x85, CHR 0xA0]"

text \<open>The class \<open>\d\<close>: below 256 the only decimal digits are \<open>0\<close>..\<open>9\<close>.\<close>

definition is_digit :: "char \<Rightarrow> bool" where
  "is_digit c \<longleftrightarrow> c \<in> set ''0123456789''"

text \<open>\<open>s.strip()\<close> and \<open>s.rstrip(chars)\<close>.\<close>

definition lstrip :: "string \<Rightarrow> string" where
  "lstrip s = dropWhile is_space s"

definition rstrip :: "string \<Rightarrow> string" where
  "rstrip s = rev (dropWhile is_space (rev s))"

definition strip :: "string \<Rightarrow> string" where
  "strip s = rstrip (lstrip s)"

definition rstrip_chars :: "string \<Rightarrow> string \<Rightarrow> string" where
  "rstrip_chars chars s = rev (dropWhile (\<lambda>c. c \<in> set chars) (rev s))"

text \<open>\<open>s.startswith(p)\<close>, \<open>s.endswith(p)\<close> and \<open>c in s\<close>.\<close>

definition startswith :: "string \<Rightarrow> string \<Rightarrow> bool" where
  "startswith s p \<longleftrightarrow> take (length p) s = p"

definition endswith :: "string \<Rightarrow> string \<Rightarrow> bool" where
  "endswith s p \<longleftrightarrow> length p \<le> length s \<and> drop (length s - length p) s = p"

text \<open>\<open>s.split(c, 1)\<close> for a string that contains \<open>c\<close>: the text before the first \<open>c\<close>
  and the text after it.\<close>

definition split_once :: "char \<Rightarrow> string \<Rightarrow> string \<times> string" where
  "split_once c s = (takeWhile (\<lambda>x. x \<noteq> c) s, drop 1 (dropWhile (\<lambda>x. x \<noteq> c) s))"

text \<open>\<open>sep.join(xs)\<close>.\<close>

fun join :: "string \<Rightarrow> string list \<Rightarrow> string" where
  "join sep [] = []"
| "join sep [x] = x"
| "join sep (x # y # ys) = x @ sep @ join sep (y # ys)"

text \<open>\<open>s.splitlines()\<close>: a line ends at \<open>\n\<close>, \<open>\r\<close>, \<open>\r\n\<close>, \<open>\v\<close>, \<open>\f\<close>, U+001C, U+001D,
  U+001E or U+0085; the line ends are dropped and no empty last line is produced.  The
  first argument is the line read so far.\<close>

definition is_linebreak :: "char \<Rightarrow> bool" where
  "is_linebreak c \<longleftrightarrow> c \<in> set [CHR 0x0A, CHR 0x0B, CHR 0x0C, CHR 0x0D,
     CHR 0x1C, CHR 0x1D, CHR 0x1E, CHR 0x85]"

fun splitlines_from :: "string \<Rightarrow> string \<Rightarrow> string list" where
  "splitlines_from cur [] = (if cur = [] then [] else [cur])"
| "splitlines_from cur (c # cs) =
     (if c = CR then
        (case cs of
           [] \<Rightarrow> [cur]
         | d # ds \<Rightarrow> if d = LF then cur # splitlines_from [] ds
                    else cur # splitlines_from [] cs)
      else if is_linebreak c then cur # splitlines_from [] cs
      else splitlines_from (cur @ [c]) cs)"

definition splitlines :: "string \<Rightarrow> string list" where
  "splitlines s = splitlines_from [] s"

text \<open>\<open>int(s)\<close> on a string of the shape \<open>[+-]?\d+\<close>, the only strings the program converts
  (see \<open>findall_pairs_coeff_shape\<close> below), and \<open>str(n)\<close> of an integer.\<close>

definition digit_val :: "char \<Rightarrow> nat" where
  "digit_val c = of_char c - of_char (CHR ''0'')"

definition digits_val :: "string \<Rightarrow> nat" where
  "digits_val s = foldl (\<lambda>a c. 10 * a + digit_val c) 0 s"

definition py_int :: "string \<Rightarrow> int" where
  "py_int s = (case s of
       [] \<Rightarrow> 0
     | c # cs \<Rightarrow> if c = CHR ''-'' then - int (digits_val cs)
                else if c = CHR ''+'' then int (digits_val cs)
                else int (digits_val s))"

fun str_nat :: "nat \<Rightarrow> string" where
  "str_nat n = (if n < 10 then [''0123456789'' ! n]
                else str_nat (n div 10) @ [''0123456789'' ! (n mod 10)])"

declare str_nat.simps [simp del]

definition py_str :: "int \<Rightarrow> string" where
  "py_str i = (if i < 0 then CHR ''-'' # str_nat (nat (- i)) else str_nat (nat i))"

section \<open>The two regular expressions\<close>

text \<open>
  Both patterns of the program are sequences of character classes, each taken once
  (\<open>x\<close>), optionally (\<open>x?\<close>), or repeated greedily (\<open>x*\<close>, \<open>x+\<close>).  \<open>re_seq\<close> is the
  backtracking matcher of \<open>re\<close> on such a sequence, anchored at the start of its input:
  every item first tries its longest run and gives characters back one at a time
  while the rest of the pattern fails.  It returns the text matched by each item and
  the text left over; with the flag set the pattern ends in \<open>$\<close>, which holds at the end
  of the text or before a last \<open>\n\<close>.
\<close>

datatype quant = One | Opt | Star | Plus

type_synonym re_item = "(char \<Rightarrow> bool) \<times> quant"

fun quant_min :: "quant \<Rightarrow> nat" where
  "quant_min One = 1" | "quant_min Opt = 0" | "quant_min Star = 0" | "quant_min Plus = 1"

fun quant_max :: "quant \<Rightarrow> nat \<Rightarrow> nat" where
  "quant_max One n = min 1 n" | "quant_max Opt n = min 1 n"
| "quant_max Star n = n" | "quant_max Plus n = n"

fun first_down :: "(nat \<Rightarrow> 'a option) \<Rightarrow> nat \<Rightarrow> nat \<Rightarrow> 'a option" where
  "first_down f lo 0 = (if lo = 0 then f 0 else None)"
| "first_down f lo (Suc k) =
     (if Suc k < lo then None
      else (case f (Suc k) of Some r \<Rightarrow> Some r | None \<Rightarrow> first_down f lo k))"

fun re_seq :: "re_item list \<Rightarrow> bool \<Rightarrow> string \<Rightarrow> (string list \<times> string) option" where
  "re_seq [] dollar s = (if dollar \<and> s \<noteq> [] \<and> s \<noteq> [LF] then None else Some ([], s))"
| "re_seq ((P, q) # items) dollar s =
     first_down
       (\<lambda>k. case re_seq items dollar (drop k s) of
               None \<Rightarrow> None
             | Some (ps, r) \<Rightarrow> Some (take k s # ps, r))
       (quant_min q) (quant_max q (length (takeWhile P s)))"

text \<open>\<open>label_line_re = ^([^\s:]+):\s+(.*\S)\s*$\<close>; the result is \<open>(group 1, group 2)\<close>.
  The dot matches every character but \<open>\n\<close>.\<close>

definition label_line_items :: "re_item list" where
  "label_line_items =
     [(\<lambda>c. \<not> is_space c \<and> c \<noteq> CHR '':'', Plus),
      (\<lambda>c. c = CHR '':'', One),
      (is_space, Plus),
      (\<lambda>c. c \<noteq> LF, Star),
      (\<lambda>c. \<not> is_space c, One),
      (is_space, Star)]"

definition label_line_match :: "string \<Rightarrow> (string \<times> string) option" where
  "label_line_match s =
     (case re_seq label_line_items True s of
        Some ([g1, colon, sp, body, final, trail], r) \<Rightarrow> Some (g1, body @ final)
      | _ \<Rightarrow> None)"

text \<open>\<open>([+-]?\d+)\s+(\S+)\<close> matched at the start of the text: the two groups and the text
  after the match.\<close>

definition pair_items :: "re_item list" where
  "pair_items =
     [(\<lambda>c. c = CHR ''+'' \<or> c = CHR ''-'', Opt),
      (is_digit, Plus),
      (is_space, Plus),
      (\<lambda>c. \<not> is_space c, Plus)]"

definition pair_match :: "string \<Rightarrow> (string \<times> string \<times> string) option" where
  "pair_match s =
     (case re_seq pair_items False s of
        Some ([sg, ds, sp, var], r) \<Rightarrow> Some (sg @ ds, var, r)
      | _ \<Rightarrow> None)"

text \<open>What a successful match returns: the pieces, one for each item, make up the text
  consumed; each piece consists of characters of its item's class and respects the
  item's bounds.\<close>

fun piece_ok :: "re_item \<Rightarrow> string \<Rightarrow> bool" where
  "piece_ok (P, q) p \<longleftrightarrow>
     list_all P p \<and> quant_min q \<le> length p \<and> length p \<le> quant_max q (length p)"

text \<open>The shape \<open>[+-]?\d+\<close> of a string that \<open>int\<close> converts.\<close>

definition coeff_shape :: "string \<Rightarrow> bool" where
  "coeff_shape c \<longleftrightarrow>
     (case c of
        [] \<Rightarrow> False
      | x # xs \<Rightarrow> if x = CHR ''+'' \<or> x = CHR ''-'' then xs \<noteq> [] \<and> list_all is_digit xs
                 else list_all is_digit c)"

subsection \<open>The pieces of a match, and the scan of \<open>findall\<close>\<close>

lemma first_down_Some:
  "first_down f lo hi = Some r \<Longrightarrow> \<exists>k. lo \<le> k \<and> k \<le> hi \<and> f k = Some r"
proof (induction hi)
  case 0
  then show ?case by (auto split: if_splits)
next
  case (Suc hi)
  show ?case
  proof (cases "f (Suc hi)")
    case None
    with Suc.prems have "first_down f lo hi = Some r"
      by (auto split: if_splits)
    from Suc.IH [OF this] obtain k where "lo \<le> k" "k \<le> hi" "f k = Some r" by blast
    then show ?thesis by (intro exI [of _ k]) simp
  next
    case (Some a)
    with Suc.prems have "\<not> Suc hi < lo" "f (Suc hi) = Some r"
      by (auto split: if_splits)
    then show ?thesis by (intro exI [of _ "Suc hi"]) simp
  qed
qed

lemma take_run_all:
  assumes k: "k \<le> length (takeWhile P s)"
  shows "list_all P (take k s)"
proof -
  have "take k (takeWhile P s @ dropWhile P s) =
        take k (takeWhile P s) @ take (k - length (takeWhile P s)) (dropWhile P s)"
    by (rule take_append)
  with k have "take k s = take k (takeWhile P s)" by simp
  then have "set (take k s) \<subseteq> set (takeWhile P s)"
    by (simp add: set_take_subset)
  then show ?thesis
    by (auto simp: list_all_iff dest: set_takeWhileD)
qed

lemma re_seq_pieces:
  "re_seq items dollar s = Some (ps, r) \<Longrightarrow>
     concat ps @ r = s \<and> list_all2 piece_ok items ps"
proof (induction items arbitrary: s ps r)
  case Nil
  then show ?case by (auto split: if_splits)
next
  case (Cons it items)
  obtain P q where it: "it = (P, q)" by (cases it)
  let ?n = "length (takeWhile P s)"
  let ?f = "\<lambda>k. case re_seq items dollar (drop k s) of None \<Rightarrow> None
                | Some (ps', r') \<Rightarrow> Some (take k s # ps', r')"
  from Cons.prems it have "first_down ?f (quant_min q) (quant_max q ?n) = Some (ps, r)"
    by simp
  from first_down_Some [OF this] obtain k where k: "quant_min q \<le> k" "k \<le> quant_max q ?n"
    and step: "?f k = Some (ps, r)"
    by blast
  from step obtain ps' where rest: "re_seq items dollar (drop k s) = Some (ps', r)"
    and ps: "ps = take k s # ps'"
    by (auto split: option.splits)
  from Cons.IH [OF rest] have ih: "concat ps' @ r = drop k s" "list_all2 piece_ok items ps'"
    by simp_all
  have kn: "k \<le> ?n" using k(2) by (cases q) auto
  have kq: "k \<le> quant_max q k" using k(2) by (cases q) auto
  have "?n \<le> length s" by (rule length_takeWhile_le)
  with kn have kl: "k \<le> length s" by simp
  have "piece_ok (P, q) (take k s)"
    using take_run_all [OF kn] k(1) kq kl by (simp add: min_absorb2)
  moreover have "concat ps @ r = s"
    using ih(1) ps by simp
  ultimately show ?case using ih(2) ps it by simp
qed

lemma pair_match_shorter:
  assumes "pair_match s = Some (coeff, var, r)"
  shows "length r < length s"
proof -
  from assms obtain sg ds sp where m: "re_seq pair_items False s = Some ([sg, ds, sp, var], r)"
    by (auto simp: pair_match_def split: option.splits list.splits)
  from re_seq_pieces [OF m] have "sg @ ds @ sp @ var @ r = s" and "1 \<le> length ds"
    by (auto simp: pair_items_def)
  then have "length s = length sg + length ds + length sp + length var + length r"
    by auto
  with \<open>1 \<le> length ds\<close> show ?thesis by linarith
qed

text \<open>\<open>re.findall(r"([+-]?\d+)\s+(\S+)", eq)\<close>: the text is scanned from the left; a match
  is recorded and the scan goes on behind it; where the pattern does not match, the
  scan moves on by one character.\<close>

function findall_pairs :: "string \<Rightarrow> (string \<times> string) list" where
  "findall_pairs s =
     (if s = [] then []
      else (case pair_match s of
              None \<Rightarrow> findall_pairs (tl s)
            | Some (coeff, var, r) \<Rightarrow> (coeff, var) # findall_pairs r))"
  by pat_completeness auto

termination
  by (relation "measure length") (auto dest: pair_match_shorter)

declare findall_pairs.simps [simp del]

text \<open>Every coefficient string that \<open>findall_pairs\<close> returns has the shape \<open>[+-]?\d+\<close>, so
  \<open>int\<close> never fails on it.\<close>

lemma pair_match_coeff_shape:
  assumes "pair_match s = Some (c, v, r)"
  shows "coeff_shape c"
proof -
  from assms obtain sg ds sp where m: "re_seq pair_items False s = Some ([sg, ds, sp, v], r)"
    and c: "c = sg @ ds"
    by (auto simp: pair_match_def split: option.splits list.splits)
  from re_seq_pieces [OF m]
  have sg: "list_all (\<lambda>c. c = CHR ''+'' \<or> c = CHR ''-'') sg" "length sg \<le> 1"
    and ds: "list_all is_digit ds" "ds \<noteq> []"
    by (auto simp: pair_items_def)
  have nd: "\<not> is_digit (CHR ''+'')" "\<not> is_digit (CHR ''-'')"
    by (simp_all add: is_digit_def)
  show ?thesis
  proof (cases sg)
    case Nil
    with ds nd c show ?thesis
      by (cases ds) (auto simp: coeff_shape_def)
  next
    case (Cons x xs)
    with sg have "xs = []" "x = CHR ''+'' \<or> x = CHR ''-''" by auto
    with Cons ds c show ?thesis by (auto simp: coeff_shape_def)
  qed
qed

lemma findall_pairs_coeff_shape:
  "(c, v) \<in> set (findall_pairs s) \<Longrightarrow> coeff_shape c"
proof (induction s rule: findall_pairs.induct)
  case (1 s)
  show ?case
  proof (cases "s = []")
    case True
    with "1.prems" show ?thesis by (simp add: findall_pairs.simps)
  next
    case False
    show ?thesis
    proof (cases "pair_match s")
      case None
      with False "1.prems" have "(c, v) \<in> set (findall_pairs (tl s))"
        by (simp add: findall_pairs.simps [of s])
      with "1.IH"(1) [OF False None] show ?thesis .
    next
      case (Some t)
      obtain c' v' r where t: "t = (c', v', r)" by (cases t)
      from False Some t "1.prems" have "(c, v) = (c', v') \<or> (c, v) \<in> set (findall_pairs r)"
        by (simp add: findall_pairs.simps [of s])
      then show ?thesis
      proof
        assume "(c, v) = (c', v')"
        with Some t pair_match_coeff_shape [of s c' v' r] show ?thesis by simp
      next
        assume "(c, v) \<in> set (findall_pairs r)"
        with "1.IH"(2) [OF False Some t [symmetric]] show ?thesis by blast
      qed
    qed
  qed
qed

section \<open>The program state\<close>

text \<open>
  A \<open>dict\<close> is an association list in insertion order: \<open>d[k] = v\<close> replaces the value
  of a key in place or appends a new key (\<open>AList.update\<close>), \<open>d.get(k, x)\<close> and \<open>k in d\<close>
  look the key up, and a dict is true when it is not empty.
\<close>

type_synonym ('k, 'v) dict = "('k \<times> 'v) list"

definition dict_get :: "('k, 'v) dict \<Rightarrow> 'k \<Rightarrow> 'v \<Rightarrow> 'v" where
  "dict_get d k dflt = (case map_of d k of None \<Rightarrow> dflt | Some v \<Rightarrow> v)"

definition dict_has :: "('k, 'v) dict \<Rightarrow> 'k \<Rightarrow> bool" where
  "dict_has d k \<longleftrightarrow> map_of d k \<noteq> None"

definition dict_set :: "('k, 'v) dict \<Rightarrow> 'k \<Rightarrow> 'v \<Rightarrow> ('k, 'v) dict" where
  "dict_set d k v = AList.update k v d"

type_synonym column = "string \<times> (string, int) dict"

record gen_state =
  columns :: "column list"
  all_vars :: "string list"
  var_index :: "(string, nat) dict"

definition init_state :: gen_state where
  "init_state = \<lparr>columns = [], all_vars = [], var_index = []\<rparr>"

definition add_var :: "string \<Rightarrow> gen_state \<Rightarrow> gen_state" where
  "add_var name st =
     (if \<not> dict_has (var_index st) name
      then st\<lparr>var_index := dict_set (var_index st) name (length (all_vars st)),
              all_vars := all_vars st @ [name]\<rparr>
      else st)"

section \<open>Reading the rules and the parser's answers\<close>

text \<open>The result of \<open>subprocess.run\<close>; the external parser is a function from the argument
  vector to this result.\<close>

record completed_process =
  returncode :: int
  stdout :: string
  stderr :: string

type_synonym exec = "string list \<Rightarrow> completed_process"

definition run_parser :: "exec \<Rightarrow> string \<Rightarrow> string \<Rightarrow> completed_process" where
  "run_parser exec parser_path rule = exec [parser_path, ''--rule'', rule]"

text \<open>The loop over the coefficient and variable pairs of one equation.\<close>

fun add_pairs ::
  "(string \<times> string) list \<Rightarrow> (string, int) dict \<Rightarrow> gen_state \<Rightarrow> (string, int) dict \<times> gen_state"
where
  "add_pairs [] mapping st = (mapping, st)"
| "add_pairs ((coeff_str, var) # pairs) mapping st =
     (let coeff = py_int coeff_str
      in add_pairs pairs (dict_set mapping var (dict_get mapping var 0 + coeff))
           (add_var var st))"

text \<open>The loop over the lines of the parser's standard output, with the flag
  \<open>capturing\<close>.\<close>

fun scan_output :: "string list \<Rightarrow> bool \<Rightarrow> gen_state \<Rightarrow> gen_state" where
  "scan_output [] capturing st = st"
| "scan_output (out_line # rest) capturing st =
     (let s = strip out_line in
      if s = ''PRINTING RULES:'' then scan_output rest True st
      else if \<not> capturing then scan_output rest capturing st
      else (case label_line_match s of
              None \<Rightarrow> scan_output rest capturing st
            | Some (label, eq) \<Rightarrow>
                (let pairs = findall_pairs eq in
                 if pairs = [] then scan_output rest capturing st
                 else (case add_pairs pairs [] st of
                         (mapping, st') \<Rightarrow>
                           scan_output rest capturing
                             (st'\<lparr>columns := columns st' @ [(label, mapping)]\<rparr>)))))"

text \<open>One line of the rules file, up to the call of the parser: \<open>None\<close> for a line that
  is skipped, otherwise the rule string handed to \<open>run_parser\<close>.\<close>

definition prepare_line :: "string \<Rightarrow> string option" where
  "prepare_line raw =
     (let line = rstrip_chars [CR] (strip raw) in
      if line = [] \<or> startswith line ''#'' then None
      else if CHR '':'' \<in> set line
        then (case split_once (CHR '':'') line of
                (head, tail) \<Rightarrow> Some (strip head @ '' '' @ strip tail))
        else Some line)"

definition failure_message :: "int \<Rightarrow> nat \<Rightarrow> string \<Rightarrow> string \<Rightarrow> string" where
  "failure_message rc idx line err =
     ''Parser failed (exit '' @ py_str rc @ '') for line '' @ py_str (int idx) @ '': '' @ line
       @ [LF] @ ''STDERR:'' @ [LF] @ err"

text \<open>The loop over the lines of the rules file, numbered from \<open>idx\<close>.  A failure of the
  parser ends it with the return code and the message.\<close>

fun process_lines ::
  "exec \<Rightarrow> string \<Rightarrow> nat \<Rightarrow> string list \<Rightarrow> gen_state \<Rightarrow> (int \<times> string) + gen_state"
where
  "process_lines exec parser_path idx [] st = Inr st"
| "process_lines exec parser_path idx (raw # rest) st =
     (case prepare_line raw of
        None \<Rightarrow> process_lines exec parser_path (idx + 1) rest st
      | Some line \<Rightarrow>
          (let proc = run_parser exec parser_path line in
           if returncode proc \<noteq> 0
           then Inl (returncode proc,
                     failure_message (returncode proc) idx line (stderr proc))
           else process_lines exec parser_path (idx + 1) rest
                  (scan_output (splitlines (stdout proc)) False st)))"

section \<open>Normalising the protein rows\<close>

definition protein_base :: "string \<Rightarrow> string option" where
  "protein_base v =
     (if endswith v ''_AC'' then None
      else if startswith v ''NOT_pr_'' then Some (drop (length ''NOT_pr_'') v)
      else if startswith v ''pr_'' then Some (drop (length ''pr_'') v)
      else if startswith v ''NOT_'' then Some (drop (length ''NOT_'') v)
      else None)"

text \<open>The test \<open>if b:\<close> on the result of \<open>protein_base\<close>: false for \<open>None\<close> and for the
  empty string.\<close>

fun truthy :: "string option \<Rightarrow> bool" where
  "truthy None = False"
| "truthy (Some b) = (b \<noteq> [])"

fun collect_bases :: "string list \<Rightarrow> string set \<Rightarrow> string set" where
  "collect_bases [] bases = bases"
| "collect_bases (v # vs) bases =
     (let b = protein_base v in
      if truthy b then collect_bases vs (insert (the b) bases)
      else collect_bases vs bases)"

definition ensure_rows :: "string \<Rightarrow> gen_state \<Rightarrow> gen_state" where
  "ensure_rows b st =
     (let st1 = (if \<not> dict_has (var_index st) (''pr_'' @ b)
                 then add_var (''pr_'' @ b) st else st)
      in if \<not> dict_has (var_index st1) (''NOT_pr_'' @ b)
         then add_var (''NOT_pr_'' @ b) st1 else st1)"

definition normalize :: "gen_state \<Rightarrow> gen_state" where
  "normalize st =
     foldl (\<lambda>s b. ensure_rows b s) st
       (sorted_list_of_set (collect_bases (all_vars st) {}))"

section \<open>The \<open>EX_\<close> and \<open>AV_\<close> columns\<close>

text \<open>The loop that fills \<open>gene_bases\<close> and \<open>protein_bases\<close>; \<open>v[:-3]\<close> drops the last three
  characters.\<close>

fun classify :: "string list \<Rightarrow> string set \<times> string set \<Rightarrow> string set \<times> string set" where
  "classify [] (gene_bases, protein_bases) = (gene_bases, protein_bases)"
| "classify (v # vs) (gene_bases, protein_bases) =
     (if endswith v ''_AC''
      then classify vs (insert (take (length v - 3) v) gene_bases, protein_bases)
      else (let b = protein_base v in
            if truthy b then classify vs (gene_bases, insert (the b) protein_bases)
            else classify vs (gene_bases, protein_bases)))"

definition add_ex :: "string \<Rightarrow> gen_state \<Rightarrow> gen_state" where
  "add_ex g st =
     (let ac_row = g @ ''_AC'' in
      if dict_has (var_index st) ac_row
      then st\<lparr>columns := columns st @ [(''EX_'' @ g, [(ac_row, - 1)])]\<rparr>
      else st)"

definition av_mapping :: "string \<Rightarrow> gen_state \<Rightarrow> (string, int) dict" where
  "av_mapping b st =
     foldl (\<lambda>mapping candidate.
              if dict_has (var_index st) candidate then dict_set mapping candidate 1
              else mapping)
       [] [''pr_'' @ b, ''NOT_pr_'' @ b, ''NOT_'' @ b]"

definition add_av :: "string \<Rightarrow> gen_state \<Rightarrow> gen_state" where
  "add_av b st =
     (let mapping = av_mapping b st in
      if mapping \<noteq> [] then st\<lparr>columns := columns st @ [(''AV_'' @ b, mapping)]\<rparr>
      else st)"

definition synthesize :: "gen_state \<Rightarrow> gen_state" where
  "synthesize st =
     (case classify (all_vars st) ({}, {}) of
        (gene_bases, protein_bases) \<Rightarrow>
          foldl (\<lambda>s b. add_av b s)
            (foldl (\<lambda>s g. add_ex g s) st (sorted_list_of_set gene_bases))
            (sorted_list_of_set protein_bases))"

section \<open>The matrix and the whole run\<close>

definition cell :: "column \<Rightarrow> string \<Rightarrow> int" where
  "cell col var = dict_get (snd col) var 0"

definition header_line :: "column list \<Rightarrow> string" where
  "header_line cols = ''variable'' @ [TAB] @ join [TAB] (map fst cols)"

definition row_line :: "column list \<Rightarrow> string \<Rightarrow> string" where
  "row_line cols var = join [TAB] (var # map (\<lambda>col. py_str (cell col var)) cols)"

definition emit :: "gen_state \<Rightarrow> string list" where
  "emit st = header_line (columns st) # map (row_line (columns st)) (sort (all_vars st))"

text \<open>\<open>print\<close> writes each line followed by a newline.\<close>

definition printed :: "string list \<Rightarrow> string" where
  "printed ls = concat (map (\<lambda>l. l @ [LF]) ls)"

record run_result =
  exit_code :: int
  err_text :: string
  out_text :: string

text \<open>The body of \<open>main\<close> once the parser and the rules file are known to exist: the
  lines of the rules file are \<open>raws\<close>.\<close>

definition main_body :: "exec \<Rightarrow> string \<Rightarrow> string list \<Rightarrow> run_result" where
  "main_body exec parser_path raws =
     (case process_lines exec parser_path 1 raws init_state of
        Inl (rc, msg) \<Rightarrow> \<lparr>exit_code = rc, err_text = printed [msg], out_text = []\<rparr>
      | Inr st \<Rightarrow>
          \<lparr>exit_code = 0, err_text = [],
           out_text = printed (emit (synthesize (normalize st)))\<rparr>)"

text \<open>\<open>main\<close> with the two checks in front: \<open>files\<close> tells which paths exist, and
  \<open>read_lines\<close> gives the lines of a file.\<close>

definition main ::
  "(string \<Rightarrow> bool) \<Rightarrow> (string \<Rightarrow> string list) \<Rightarrow> exec \<Rightarrow> string \<Rightarrow> string \<Rightarrow> run_result"
where
  "main files read_lines exec parser_path rules_path =
     (if \<not> files parser_path
      then \<lparr>exit_code = 2,
            err_text = printed [''Error: parser not found at '' @ parser_path],
            out_text = []\<rparr>
      else if \<not> files rules_path
      then \<lparr>exit_code = 2,
            err_text = printed [''Error: input file not found: '' @ rules_path],
            out_text = []\<rparr>
      else main_body exec parser_path (read_lines rules_path))"

section \<open>The iteration order of the sets\<close>

text \<open>
  Python does not fix the order in which a set of strings is iterated: it follows the
  hashes of the strings, which differ from one run of the interpreter to the next, and
  the way the set was filled.  The program iterates each of its three sets once, inside
  \<open>sorted\<close>.  A \<open>set_order\<close> gives, for one run, the list in which the iteration of each
  of them yields the elements of the set; \<open>sorted(s)\<close> takes that list and sorts it.
  The definitions below are the part of \<open>main\<close> behind the loop over the rules with
  this order written out.
\<close>

datatype set_site = Bases | Gene_bases | Protein_bases

type_synonym set_order = "set_site \<Rightarrow> string set \<Rightarrow> string list"

definition py_sorted :: "set_order \<Rightarrow> set_site \<Rightarrow> string set \<Rightarrow> string list" where
  "py_sorted order site s = sort (order site s)"

definition normalize_in :: "set_order \<Rightarrow> gen_state \<Rightarrow> gen_state" where
  "normalize_in order st =
     foldl (\<lambda>s b. ensure_rows b s) st
       (py_sorted order Bases (collect_bases (all_vars st) {}))"

definition synthesize_in :: "set_order \<Rightarrow> gen_state \<Rightarrow> gen_state" where
  "synthesize_in order st =
     (case classify (all_vars st) ({}, {}) of
        (gene_bases, protein_bases) \<Rightarrow>
          foldl (\<lambda>s b. add_av b s)
            (foldl (\<lambda>s g. add_ex g s) st (py_sorted order Gene_bases gene_bases))
            (py_sorted order Protein_bases protein_bases))"

definition main_body_in :: "set_order \<Rightarrow> exec \<Rightarrow> string \<Rightarrow> string list \<Rightarrow> run_result" where
  "main_body_in order exec parser_path raws =
     (case process_lines exec parser_path 1 raws init_state of
        Inl (rc, msg) \<Rightarrow> \<lparr>exit_code = rc, err_text = printed [msg], out_text = []\<rparr>
      | Inr st \<Rightarrow>
          \<lparr>exit_code = 0, err_text = [],
           out_text = printed (emit (synthesize_in order (normalize_in order st)))\<rparr>)"

definition main_in ::
  "set_order \<Rightarrow> (string \<Rightarrow> bool) \<Rightarrow> (string \<Rightarrow> string list) \<Rightarrow> exec \<Rightarrow> string \<Rightarrow> string
     \<Rightarrow> run_result"
where
  "main_in order files read_lines exec parser_path rules_path =
     (if \<not> files parser_path
      then \<lparr>exit_code = 2,
            err_text = printed [''Error: parser not found at '' @ parser_path],
            out_text = []\<rparr>
      else if \<not> files rules_path
      then \<lparr>exit_code = 2,
            err_text = printed [''Error: input file not found: '' @ rules_path],
            out_text = []\<rparr>
      else main_body_in order exec parser_path (read_lines rules_path))"

section \<open>Notions used in the statements and proofs\<close>

text \<open>The invariant of the state: the keys of \<open>var_index\<close> are the variables of
  \<open>all_vars\<close>, in the same order and without a repetition, and every variable of a
  column's mapping is one of them.\<close>

definition consistent :: "gen_state \<Rightarrow> bool" where
  "consistent st \<longleftrightarrow>
     map fst (var_index st) = all_vars st \<and> distinct (all_vars st) \<and>
     list_all (\<lambda>col. set (map fst (snd col)) \<subseteq> set (all_vars st)) (columns st)"

text \<open>The non-empty protein bases and the gene bases of a list of variables, and the
  columns appended for them.\<close>

abbreviation protein_bases_of :: "string list \<Rightarrow> string set" where
  "protein_bases_of vs \<equiv> {b. b \<noteq> [] \<and> (\<exists>v\<in>set vs. protein_base v = Some b)}"

abbreviation gene_bases_of :: "string list \<Rightarrow> string set" where
  "gene_bases_of vs \<equiv> {g. g @ ''_AC'' \<in> set vs}"

abbreviation ex_column :: "string \<Rightarrow> column" where
  "ex_column g \<equiv> (''EX_'' @ g, [(g @ ''_AC'', - 1)])"

abbreviation av_column :: "gen_state \<Rightarrow> string \<Rightarrow> column" where
  "av_column st b \<equiv> (''AV_'' @ b, av_mapping b st)"

text \<open>A parser that succeeds with a fixed standard output, for the examples.\<close>

definition parser_printing :: "string \<Rightarrow> exec" where
  "parser_printing out argv = \<lparr>returncode = 0, stdout = out, stderr = []\<rparr>"

text \<open>A parser that fails with the given return code and standard error on every
  argument vector that holds the string \<open>bad\<close>, and succeeds with the given standard
  output on every other one.\<close>

definition parser_rejecting :: "string \<Rightarrow> int \<Rightarrow> string \<Rightarrow> string \<Rightarrow> exec" where
  "parser_rejecting bad rc err out argv =
     (if bad \<in> set argv then \<lparr>returncode = rc, stdout = [], stderr = err\<rparr>
      else \<lparr>returncode = 0, stdout = out, stderr = []\<rparr>)"

section \<open>The invariant is kept\<close>

lemma dict_has_keys: "dict_has d k \<longleftrightarrow> k \<in> set (map fst d)"
  by (simp add: dict_has_def map_of_eq_None_iff)

lemma dict_set_keys:
  "map fst (dict_set d k v) = (if k \<in> set (map fst d) then map fst d else map fst d @ [k])"
  by (simp add: dict_set_def update_keys)

lemma map_of_dict_set: "map_of (dict_set d k v) = (map_of d)(k \<mapsto> v)"
  by (simp add: dict_set_def update_conv')

lemma consistent_init: "consistent init_state"
  by (simp add: consistent_def init_state_def)

lemma add_var_columns [simp]: "columns (add_var n st) = columns st"
  by (simp add: add_var_def)

lemma add_var_all_vars:
  "consistent st \<Longrightarrow>
     all_vars (add_var n st) = (if n \<in> set (all_vars st) then all_vars st else all_vars st @ [n])"
  by (auto simp: add_var_def consistent_def dict_has_keys)

lemma add_var_consistent: "consistent st \<Longrightarrow> consistent (add_var n st)"
  by (auto simp: add_var_def consistent_def dict_has_keys dict_set_keys list_all_iff)

lemma add_var_set:
  "consistent st \<Longrightarrow> set (all_vars (add_var n st)) = insert n (set (all_vars st))"
  by (auto simp: add_var_all_vars)

lemma add_pairs_columns: "columns (snd (add_pairs pairs m st)) = columns st"
  by (induction pairs arbitrary: m st) (auto simp: Let_def)

lemma add_pairs_consistent: "consistent st \<Longrightarrow> consistent (snd (add_pairs pairs m st))"
  by (induction pairs arbitrary: m st) (auto simp: Let_def add_var_consistent)

lemma add_pairs_vars:
  "consistent st \<Longrightarrow>
     set (all_vars (snd (add_pairs pairs m st))) = set (all_vars st) \<union> set (map snd pairs)"
proof (induction pairs arbitrary: m st)
  case Nil
  then show ?case by simp
next
  case (Cons p pairs)
  obtain c v where p: "p = (c, v)" by (cases p)
  have "consistent (add_var v st)" using Cons.prems by (rule add_var_consistent)
  from Cons.IH [OF this] show ?case
    using Cons.prems by (simp add: p Let_def add_var_set)
qed

lemma dict_set_key_set: "set (map fst (dict_set d k v)) = insert k (set (map fst d))"
  by (auto simp: dict_set_keys)

lemma add_pairs_keys:
  "set (map fst (fst (add_pairs pairs m st))) = set (map fst m) \<union> set (map snd pairs)"
proof (induction pairs arbitrary: m st)
  case Nil
  then show ?case by simp
next
  case (Cons p pairs)
  obtain c v where p: "p = (c, v)" by (cases p)
  show ?case
    unfolding p by (simp add: Let_def Cons.IH dict_set_key_set del: set_map)
qed

lemma add_column_consistent:
  assumes "consistent st" and "set (map fst m) \<subseteq> set (all_vars st)"
  shows "consistent (st\<lparr>columns := columns st @ [(label, m)]\<rparr>)"
  using assms by (simp add: consistent_def)

lemma add_pairs_column_consistent:
  assumes "consistent st" and "add_pairs pairs [] st = (m, st')"
  shows "consistent (st'\<lparr>columns := columns st' @ [(label, m)]\<rparr>)"
proof -
  have st': "st' = snd (add_pairs pairs [] st)" and m: "m = fst (add_pairs pairs [] st)"
    using assms(2) by simp_all
  have "consistent st'" unfolding st' using assms(1) by (rule add_pairs_consistent)
  moreover have "set (map fst m) \<subseteq> set (all_vars st')"
    unfolding st' m using assms(1) by (simp add: add_pairs_keys add_pairs_vars del: set_map)
  ultimately show ?thesis by (rule add_column_consistent)
qed

lemma scan_output_consistent:
  "consistent st \<Longrightarrow> consistent (scan_output ls capturing st)"
proof (induction ls arbitrary: capturing st)
  case Nil
  then show ?case by simp
next
  case (Cons l ls)
  show ?case
    using Cons.prems
    by (auto simp: Let_def Cons.IH add_pairs_column_consistent split: option.splits prod.splits)
qed

lemma process_lines_consistent:
  "process_lines exec path idx raws st = Inr st' \<Longrightarrow> consistent st \<Longrightarrow> consistent st'"
proof (induction raws arbitrary: idx st)
  case Nil
  then show ?case by simp
next
  case (Cons raw raws)
  show ?case
  proof (cases "prepare_line raw")
    case None
    with Cons.prems have "process_lines exec path (idx + 1) raws st = Inr st'" by simp
    from Cons.IH [OF this Cons.prems(2)] show ?thesis .
  next
    case (Some line)
    let ?proc = "run_parser exec path line"
    let ?st = "scan_output (splitlines (stdout ?proc)) False st"
    from Cons.prems(1) Some have "process_lines exec path (idx + 1) raws ?st = Inr st'"
      by (auto simp: Let_def split: if_splits)
    moreover have "consistent ?st" using Cons.prems(2) by (rule scan_output_consistent)
    ultimately show ?thesis by (rule Cons.IH)
  qed
qed

lemma run_consistent:
  "process_lines exec path idx raws init_state = Inr st \<Longrightarrow> consistent st"
  by (erule process_lines_consistent) (rule consistent_init)

section \<open>What normalisation and the appended columns are\<close>

lemma endswith_iff: "endswith v p \<longleftrightarrow> (\<exists>u. v = u @ p)"
proof
  assume "endswith v p"
  then have "v = take (length v - length p) v @ p"
    by (metis append_take_drop_id endswith_def)
  then show "\<exists>u. v = u @ p" ..
next
  assume "\<exists>u. v = u @ p"
  then show "endswith v p" by (auto simp: endswith_def)
qed

lemma startswith_iff: "startswith v p \<longleftrightarrow> (\<exists>u. v = p @ u)"
proof
  assume "startswith v p"
  then have "v = p @ drop (length p) v"
    by (metis append_take_drop_id startswith_def)
  then show "\<exists>u. v = p @ u" ..
next
  assume "\<exists>u. v = p @ u"
  then show "startswith v p" by (auto simp: startswith_def)
qed

lemma truthy_iff: "truthy b \<longleftrightarrow> (\<exists>x. b = Some x \<and> x \<noteq> [])"
  by (cases b) auto

lemma collect_bases_eq: "collect_bases vs B = B \<union> protein_bases_of vs"
proof (induction vs arbitrary: B)
  case Nil
  then show ?case by simp
next
  case (Cons v vs)
  show ?case
  proof (cases "truthy (protein_base v)")
    case True
    then obtain x where x: "protein_base v = Some x" "x \<noteq> []"
      by (auto simp: truthy_iff)
    then show ?thesis by (auto simp: Cons.IH)
  next
    case False
    then have "\<And>b. protein_base v = Some b \<Longrightarrow> b = []"
      by (auto simp: truthy_iff)
    with False show ?thesis by (auto simp: Cons.IH)
  qed
qed

lemma finite_protein_bases: "finite (protein_bases_of vs)"
proof -
  have "protein_bases_of vs \<subseteq> (\<lambda>v. the (protein_base v)) ` set vs"
    by force
  then show ?thesis by (rule finite_subset) simp
qed

lemma finite_gene_bases: "finite (gene_bases_of vs)"
proof -
  have "gene_bases_of vs \<subseteq> (\<lambda>v. take (length v - 3) v) ` set vs"
    by force
  then show ?thesis by (rule finite_subset) simp
qed

lemma classify_eq:
  "classify vs (G, P) = (G \<union> gene_bases_of vs, P \<union> protein_bases_of vs)"
proof (induction vs arbitrary: G P)
  case Nil
  then show ?case by simp
next
  case (Cons v vs)
  show ?case
  proof (cases "endswith v ''_AC''")
    case True
    then obtain u where u: "v = u @ ''_AC''" by (auto simp: endswith_iff)
    have none: "protein_base v = None" using True by (simp add: protein_base_def)
    have "take (length v - 3) v = u" by (simp add: u)
    with True none u show ?thesis by (auto simp: Cons.IH)
  next
    case False
    then have nog: "\<And>g. g @ ''_AC'' \<noteq> v" by (auto simp: endswith_iff)
    show ?thesis
    proof (cases "truthy (protein_base v)")
      case True
      then obtain x where x: "protein_base v = Some x" "x \<noteq> []"
        by (auto simp: truthy_iff)
      with False nog show ?thesis by (auto simp: Cons.IH)
    next
      case nt: False
      then have "\<And>b. protein_base v = Some b \<Longrightarrow> b = []"
        by (auto simp: truthy_iff)
      with False nt nog show ?thesis by (auto simp: Cons.IH)
    qed
  qed
qed

lemma has_var_iff: "consistent st \<Longrightarrow> dict_has (var_index st) n \<longleftrightarrow> n \<in> set (all_vars st)"
  by (simp add: consistent_def dict_has_keys)

lemma ensure_rows_columns [simp]: "columns (ensure_rows b st) = columns st"
  by (simp add: ensure_rows_def Let_def)

lemma ensure_rows_consistent: "consistent st \<Longrightarrow> consistent (ensure_rows b st)"
  by (simp add: ensure_rows_def Let_def add_var_consistent)

lemma ensure_rows_vars:
  assumes "consistent st"
  shows "set (all_vars (ensure_rows b st)) =
           set (all_vars st) \<union> {''pr_'' @ b, ''NOT_pr_'' @ b}"
proof -
  let ?st1 = "if \<not> dict_has (var_index st) (''pr_'' @ b) then add_var (''pr_'' @ b) st else st"
  have c1: "consistent ?st1" using assms by (simp add: add_var_consistent)
  have v1: "set (all_vars ?st1) = insert (''pr_'' @ b) (set (all_vars st))"
    using assms by (auto simp: add_var_set has_var_iff)
  have "set (all_vars (ensure_rows b st)) = insert (''NOT_pr_'' @ b) (set (all_vars ?st1))"
    unfolding ensure_rows_def Let_def using c1 by (auto simp: add_var_set has_var_iff)
  with v1 show ?thesis by auto
qed

lemma foldl_ensure_rows:
  "consistent st \<Longrightarrow>
     consistent (foldl (\<lambda>s b. ensure_rows b s) st bs) \<and>
     columns (foldl (\<lambda>s b. ensure_rows b s) st bs) = columns st \<and>
     set (all_vars (foldl (\<lambda>s b. ensure_rows b s) st bs)) =
       set (all_vars st) \<union> (\<Union>b\<in>set bs. {''pr_'' @ b, ''NOT_pr_'' @ b})"
proof (induction bs arbitrary: st)
  case Nil
  then show ?case by simp
next
  case (Cons b bs)
  have c: "consistent (ensure_rows b st)" using Cons.prems by (rule ensure_rows_consistent)
  from Cons.IH [OF c] show ?case
    using Cons.prems by (simp add: ensure_rows_vars Un_assoc)
qed

lemma normalize_consistent: "consistent st \<Longrightarrow> consistent (normalize st)"
  by (simp add: normalize_def foldl_ensure_rows)

lemma normalize_columns: "consistent st \<Longrightarrow> columns (normalize st) = columns st"
  by (simp add: normalize_def foldl_ensure_rows)

lemma normalize_vars:
  assumes "consistent st"
  shows "set (all_vars (normalize st)) =
           set (all_vars st) \<union>
           (\<Union>b\<in>protein_bases_of (all_vars st). {''pr_'' @ b, ''NOT_pr_'' @ b})"
proof -
  have "set (sorted_list_of_set (collect_bases (all_vars st) {})) = protein_bases_of (all_vars st)"
    by (simp add: collect_bases_eq finite_protein_bases)
  then show ?thesis
    using foldl_ensure_rows [OF assms, of "sorted_list_of_set (collect_bases (all_vars st) {})"]
    by (simp add: normalize_def)
qed

lemma protein_base_pr: "protein_base (''pr_'' @ b) = Some b' \<Longrightarrow> b' = b"
  by (auto simp: protein_base_def startswith_def split: if_splits)

lemma protein_base_NOT_pr: "protein_base (''NOT_pr_'' @ b) = Some b' \<Longrightarrow> b' = b"
  by (auto simp: protein_base_def startswith_def split: if_splits)

lemma normalize_protein_bases:
  assumes "consistent st"
  shows "protein_bases_of (all_vars (normalize st)) = protein_bases_of (all_vars st)"
proof
  show "protein_bases_of (all_vars (normalize st)) \<subseteq> protein_bases_of (all_vars st)"
  proof
    fix b assume "b \<in> protein_bases_of (all_vars (normalize st))"
    then obtain v where b: "b \<noteq> []" and v: "v \<in> set (all_vars (normalize st))"
      and pb: "protein_base v = Some b" by auto
    from v consider "v \<in> set (all_vars st)"
      | b' where "b' \<in> protein_bases_of (all_vars st)" "v = ''pr_'' @ b' \<or> v = ''NOT_pr_'' @ b'"
      unfolding normalize_vars [OF assms] by blast
    then show "b \<in> protein_bases_of (all_vars st)"
    proof cases
      case 1
      with b pb show ?thesis by auto
    next
      case 2
      with pb have "b = b'"
        using protein_base_pr [of b' b] protein_base_NOT_pr [of b' b] by blast
      with 2(1) show ?thesis by simp
    qed
  qed
next
  show "protein_bases_of (all_vars st) \<subseteq> protein_bases_of (all_vars (normalize st))"
    unfolding normalize_vars [OF assms] by blast
qed

lemma normalize_rows_present:
  assumes "consistent st" and "b \<in> protein_bases_of (all_vars (normalize st))"
  shows "''pr_'' @ b \<in> set (all_vars (normalize st))"
    and "''NOT_pr_'' @ b \<in> set (all_vars (normalize st))"
proof -
  from assms have "b \<in> protein_bases_of (all_vars st)"
    by (simp only: normalize_protein_bases)
  then show "''pr_'' @ b \<in> set (all_vars (normalize st))"
    and "''NOT_pr_'' @ b \<in> set (all_vars (normalize st))"
    unfolding normalize_vars [OF assms(1)] by blast+
qed

lemma add_ex_present:
  "dict_has (var_index st) (g @ ''_AC'') \<Longrightarrow>
     add_ex g st = st\<lparr>columns := columns st @ [ex_column g]\<rparr>"
  by (simp add: add_ex_def Let_def)

lemma foldl_add_ex:
  "\<forall>g\<in>set gs. dict_has (var_index st) (g @ ''_AC'') \<Longrightarrow>
     foldl (\<lambda>s g. add_ex g s) st gs = st\<lparr>columns := columns st @ map ex_column gs\<rparr>"
proof (induction gs arbitrary: st)
  case Nil
  then show ?case by simp
next
  case (Cons g gs)
  let ?st = "st\<lparr>columns := columns st @ [ex_column g]\<rparr>"
  have step: "add_ex g st = ?st" using Cons.prems by (simp add: add_ex_present)
  have "\<forall>g\<in>set gs. dict_has (var_index ?st) (g @ ''_AC'')" using Cons.prems by simp
  from Cons.IH [OF this] show ?case by (simp add: step)
qed

lemma av_mapping_columns [simp]: "av_mapping b (st\<lparr>columns := cs\<rparr>) = av_mapping b st"
  by (simp add: av_mapping_def)

lemma foldl_add_av:
  "\<forall>b\<in>set bs. av_mapping b st \<noteq> [] \<Longrightarrow>
     foldl (\<lambda>s b. add_av b s) st bs = st\<lparr>columns := columns st @ map (av_column st) bs\<rparr>"
proof (induction bs arbitrary: st)
  case Nil
  then show ?case by simp
next
  case (Cons b bs)
  let ?st = "st\<lparr>columns := columns st @ [av_column st b]\<rparr>"
  have step: "add_av b st = ?st" using Cons.prems by (simp add: add_av_def Let_def)
  have "\<forall>b\<in>set bs. av_mapping b ?st \<noteq> []" using Cons.prems by simp
  from Cons.IH [OF this] show ?case by (simp add: step)
qed

lemma map_of_av_mapping:
  "map_of (av_mapping b st) k =
     (if k \<in> {''pr_'' @ b, ''NOT_pr_'' @ b, ''NOT_'' @ b} \<and> dict_has (var_index st) k
      then Some 1 else None)"
  by (simp add: av_mapping_def map_of_dict_set)

lemma av_mapping_nonempty:
  assumes "dict_has (var_index st) (''pr_'' @ b)"
  shows "av_mapping b st \<noteq> []"
proof
  assume "av_mapping b st = []"
  then have "map_of (av_mapping b st) (''pr_'' @ b) = None" by simp
  with assms show False by (simp add: map_of_av_mapping)
qed

lemma synthesize_eq:
  assumes c: "consistent st"
    and rows: "\<forall>b\<in>protein_bases_of (all_vars st). ''pr_'' @ b \<in> set (all_vars st)"
  shows "synthesize st =
           st\<lparr>columns := columns st
              @ map ex_column (sorted_list_of_set (gene_bases_of (all_vars st)))
              @ map (av_column st) (sorted_list_of_set (protein_bases_of (all_vars st)))\<rparr>"
proof -
  let ?gs = "sorted_list_of_set (gene_bases_of (all_vars st))"
  let ?bs = "sorted_list_of_set (protein_bases_of (all_vars st))"
  let ?st1 = "st\<lparr>columns := columns st @ map ex_column ?gs\<rparr>"
  have cl: "classify (all_vars st) ({}, {}) =
              (gene_bases_of (all_vars st), protein_bases_of (all_vars st))"
    by (simp add: classify_eq)
  have "\<forall>g\<in>set ?gs. dict_has (var_index st) (g @ ''_AC'')"
    using c by (simp add: finite_gene_bases has_var_iff)
  then have ex: "foldl (\<lambda>s g. add_ex g s) st ?gs = ?st1" by (rule foldl_add_ex)
  have "\<forall>b\<in>set ?bs. av_mapping b ?st1 \<noteq> []"
    using c rows by (simp add: finite_protein_bases has_var_iff av_mapping_nonempty)
  then have "foldl (\<lambda>s b. add_av b s) ?st1 ?bs =
               ?st1\<lparr>columns := columns ?st1 @ map (av_column ?st1) ?bs\<rparr>"
    by (rule foldl_add_av)
  then show ?thesis
    unfolding synthesize_def cl by (simp add: ex)
qed

lemma final_state_eq:
  assumes c: "consistent st"
  shows "synthesize (normalize st) =
           (normalize st)\<lparr>columns := columns st
              @ map ex_column (sorted_list_of_set (gene_bases_of (all_vars (normalize st))))
              @ map (av_column (normalize st))
                  (sorted_list_of_set (protein_bases_of (all_vars (normalize st))))\<rparr>"
proof -
  have cn: "consistent (normalize st)" using c by (rule normalize_consistent)
  have "\<forall>b\<in>protein_bases_of (all_vars (normalize st)).
          ''pr_'' @ b \<in> set (all_vars (normalize st))"
    using normalize_rows_present(1) [OF c] by blast
  from synthesize_eq [OF cn this] show ?thesis
    by (simp only: normalize_columns [OF c])
qed

section \<open>The claims\<close>

text \<open>
  \<^bold>\<open>C6.\<close>  The protein base of a variable follows a fixed precedence: a variable that
  ends with \<open>_AC\<close> has no base; otherwise one that starts with \<open>NOT_pr_\<close> has the rest
  after that prefix as its base; otherwise one that starts with \<open>pr_\<close> has the rest after
  it; otherwise one that starts with \<open>NOT_\<close> has the rest after it; otherwise there is no
  base.
\<close>

theorem protein_base_precedence:
  "(suffix ''_AC'' v \<longrightarrow> protein_base v = None) \<and>
   (\<not> suffix ''_AC'' v \<longrightarrow>
      (\<forall>b. v = ''NOT_pr_'' @ b \<longrightarrow> protein_base v = Some b)) \<and>
   (\<not> suffix ''_AC'' v \<and> \<not> prefix ''NOT_pr_'' v \<longrightarrow>
      (\<forall>b. v = ''pr_'' @ b \<longrightarrow> protein_base v = Some b)) \<and>
   (\<not> suffix ''_AC'' v \<and> \<not> prefix ''NOT_pr_'' v \<and> \<not> prefix ''pr_'' v \<longrightarrow>
      (\<forall>b. v = ''NOT_'' @ b \<longrightarrow> protein_base v = Some b)) \<and>
   (\<not> suffix ''_AC'' v \<and> \<not> prefix ''NOT_pr_'' v \<and> \<not> prefix ''pr_'' v \<and> \<not> prefix ''NOT_'' v \<longrightarrow>
      protein_base v = None)"
proof -
  have e: "endswith v ''_AC'' \<longleftrightarrow> suffix ''_AC'' v"
    by (auto simp: endswith_iff suffix_def)
  have s: "\<And>p. startswith v p \<longleftrightarrow> prefix p v"
    by (auto simp: startswith_iff prefix_def)
  show ?thesis
    unfolding protein_base_def e s by (auto simp: prefix_def)
qed

theorem protein_base_precedence_witness:
  "protein_base ''X_AC'' = None \<and> protein_base ''pr_X_AC'' = None \<and>
   protein_base ''NOT_pr_X'' = Some ''X'' \<and> protein_base ''pr_NOT_X'' = Some ''NOT_X'' \<and>
   protein_base ''NOT_X'' = Some ''X'' \<and> protein_base ''X'' = None"
proof -
  have s: "suffix ''_AC'' ''X_AC''" "suffix ''_AC'' ''pr_X_AC''"
    "\<not> suffix ''_AC'' ''NOT_pr_X''" "\<not> suffix ''_AC'' ''pr_NOT_X''"
    "\<not> suffix ''_AC'' ''NOT_X''" "\<not> suffix ''_AC'' ''X''"
    by (simp_all add: suffix_to_prefix)
  have p: "\<not> prefix ''NOT_pr_'' ''pr_NOT_X''" "\<not> prefix ''NOT_pr_'' ''NOT_X''"
    "\<not> prefix ''pr_'' ''NOT_X''" "\<not> prefix ''NOT_pr_'' ''X''" "\<not> prefix ''pr_'' ''X''"
    "\<not> prefix ''NOT_'' ''X''"
    by simp_all
  show ?thesis
    using protein_base_precedence [of "''X_AC''"] protein_base_precedence [of "''pr_X_AC''"]
      protein_base_precedence [of "''NOT_pr_X''"] protein_base_precedence [of "''pr_NOT_X''"]
      protein_base_precedence [of "''NOT_X''"] protein_base_precedence [of "''X''"]
      s p
    by simp
qed

lemma dict_get_dict_set:
  "dict_get (dict_set m k x) v d = (if v = k then x else dict_get m v d)"
  by (simp add: dict_get_def map_of_dict_set)

lemma filter_absent: "x \<notin> set (map snd pairs) \<Longrightarrow> filter (\<lambda>p. snd p = x) pairs = []"
  by (induction pairs) auto

lemma add_pairs_lookup:
  "map_of (fst (add_pairs pairs m st)) v =
     (if v \<in> set (map snd pairs)
      then Some (dict_get m v 0 + sum_list (map (\<lambda>p. py_int (fst p)) (filter (\<lambda>p. snd p = v) pairs)))
      else map_of m v)"
proof (induction pairs arbitrary: m st)
  case Nil
  then show ?case by simp
next
  case (Cons p pairs)
  obtain c x where p: "p = (c, x)" by (cases p)
  let ?m = "dict_set m x (dict_get m x 0 + py_int c)"
  have step: "fst (add_pairs (p # pairs) m st) = fst (add_pairs pairs ?m (add_var x st))"
    by (simp add: p Let_def)
  show ?case
  proof (cases "v = x")
    case True
    then show ?thesis
      unfolding step Cons.IH
      by (simp add: p dict_get_dict_set map_of_dict_set filter_absent del: set_map)
  next
    case False
    then show ?thesis
      unfolding step Cons.IH
      by (simp add: p dict_get_dict_set map_of_dict_set del: set_map)
  qed
qed

lemma label_line_not_marker: "label_line_match ''PRINTING RULES:'' = None"
  by code_simp

text \<open>
  \<^bold>\<open>C5.\<close>  For an output line after the marker that matches the label pattern and whose
  equation yields at least one coefficient and variable pair, exactly one column is
  appended; it carries the label of the line, and it maps every variable of a pair to
  the sum of the integer coefficients of all the pairs with that variable, and no other
  variable.
\<close>

theorem repeated_variable_coefficients_sum:
  assumes "label_line_match (strip out_line) = Some (label, eq)"
    and "findall_pairs eq = pairs" and "pairs \<noteq> []"
  shows "\<exists>mapping.
           columns (scan_output [out_line] True st) = columns st @ [(label, mapping)] \<and>
           (\<forall>v. map_of mapping v =
              (if v \<in> set (map snd pairs)
               then Some (sum_list (map (\<lambda>p. py_int (fst p)) (filter (\<lambda>p. snd p = v) pairs)))
               else None))"
proof -
  obtain mapping st' where ap: "add_pairs pairs [] st = (mapping, st')"
    by (cases "add_pairs pairs [] st")
  have nm: "strip out_line \<noteq> ''PRINTING RULES:''"
    using assms(1) label_line_not_marker by auto
  have cols: "columns st' = columns st"
    using add_pairs_columns [of pairs "[]" st] ap by simp
  have "columns (scan_output [out_line] True st) = columns st @ [(label, mapping)]"
    using assms nm ap cols by (simp add: Let_def)
  moreover have "map_of mapping v =
      (if v \<in> set (map snd pairs)
       then Some (sum_list (map (\<lambda>p. py_int (fst p)) (filter (\<lambda>p. snd p = v) pairs)))
       else None)" for v
    using add_pairs_lookup [of pairs "[]" st v] ap by (simp add: dict_get_def)
  ultimately show ?thesis by blast
qed

theorem repeated_variable_coefficients_sum_witness:
  "label_line_match (strip ''G1: 2 pr_X -1 pr_X'') = Some (''G1'', ''2 pr_X -1 pr_X'') \<and>
   findall_pairs ''2 pr_X -1 pr_X'' = [(''2'', ''pr_X''), (''-1'', ''pr_X'')] \<and>
   (\<exists>mapping.
      columns (scan_output [''G1: 2 pr_X -1 pr_X''] True init_state) = [(''G1'', mapping)] \<and>
      map_of mapping ''pr_X'' = Some 1)"
proof -
  have m: "label_line_match (strip ''G1: 2 pr_X -1 pr_X'') = Some (''G1'', ''2 pr_X -1 pr_X'')"
    by code_simp
  have f: "findall_pairs ''2 pr_X -1 pr_X'' = [(''2'', ''pr_X''), (''-1'', ''pr_X'')]"
    by code_simp
  have i: "py_int ''2'' = 2" "py_int ''-1'' = - 1"
    by code_simp+
  from repeated_variable_coefficients_sum [OF m f, of init_state]
  obtain mapping where
    c: "columns (scan_output [''G1: 2 pr_X -1 pr_X''] True init_state) =
          columns init_state @ [(''G1'', mapping)]"
    and l: "\<And>v. map_of mapping v =
          (if v \<in> set (map snd [(''2'', ''pr_X''), (''-1'', ''pr_X'')])
           then Some (sum_list (map (\<lambda>p. py_int (fst p))
                  (filter (\<lambda>p. snd p = v) [(''2'', ''pr_X''), (''-1'', ''pr_X'')])))
           else None)"
    by auto
  have "map_of mapping ''pr_X'' = Some 1"
    using l [of "''pr_X''"] i by simp
  moreover have "columns (scan_output [''G1: 2 pr_X -1 pr_X''] True init_state) = [(''G1'', mapping)]"
    using c by (simp add: init_state_def)
  ultimately show ?thesis using m f by blast
qed



lemma main_body_success:
  "process_lines exec path 1 raws init_state = Inr st \<Longrightarrow>
     main_body exec path raws =
       \<lparr>exit_code = 0, err_text = [], out_text = printed (emit (synthesize (normalize st)))\<rparr>"
  by (simp add: main_body_def)

lemma final_all_vars:
  "consistent st \<Longrightarrow> all_vars (synthesize (normalize st)) = all_vars (normalize st)"
  by (simp add: final_state_eq)



lemma ex_column_cell:
  "cell (ex_column g) r = (if r = g @ ''_AC'' then - 1 else 0)"
  by (simp add: cell_def dict_get_def)




lemma filter_eq_distinct:
  "distinct xs \<Longrightarrow> x \<in> set xs \<Longrightarrow> filter (\<lambda>y. y = x) xs = [x]"
proof (induction xs)
  case Nil
  then show ?case by simp
next
  case (Cons a xs)
  show ?case
  proof (cases "a = x")
    case True
    with Cons.prems have "x \<notin> set xs" by simp
    then have "filter (\<lambda>y. y = x) xs = []" by (induction xs) auto
    with True show ?thesis by simp
  next
    case False
    with Cons show ?thesis by simp
  qed
qed

lemma filter_ex_columns:
  "filter (\<lambda>col. fst col = ''EX_'' @ g) (map ex_column gs) = map ex_column (filter (\<lambda>y. y = g) gs)"
  by (induction gs) simp_all

lemma filter_av_columns:
  "filter (\<lambda>col. fst col = ''AV_'' @ b) (map (av_column st) bs)
     = map (av_column st) (filter (\<lambda>y. y = b) bs)"
  by (induction bs) simp_all

lemma no_ex_among_av:
  "filter (\<lambda>col. fst col = ''EX_'' @ g) (map (av_column st) bs) = []"
  by (induction bs) simp_all

lemma no_av_among_ex:
  "filter (\<lambda>col. fst col = ''AV_'' @ b) (map ex_column gs) = []"
  by (induction gs) simp_all

text \<open>The columns appended behind the rule-derived ones.\<close>

lemma appended_columns:
  assumes "consistent st"
  shows "drop (length (columns st)) (columns (synthesize (normalize st))) =
           map ex_column (sorted_list_of_set (gene_bases_of (all_vars (normalize st))))
           @ map (av_column (normalize st))
               (sorted_list_of_set (protein_bases_of (all_vars (normalize st))))"
    and "take (length (columns st)) (columns (synthesize (normalize st))) = columns st"
  by (simp_all add: final_state_eq [OF assms])

text \<open>
  \<^bold>\<open>C3.\<close>  For every gene base \<open>g\<close>, that is whenever \<open>g_AC\<close> is a variable of the final
  variable set (which holds every observed variable), exactly one of the columns
  appended behind the rule-derived columns is labelled \<open>EX_g\<close>, and a column appended
  under that label has the cell \<open>-1\<close> in the row \<open>g_AC\<close> and the cell 0 in every other row.
\<close>

theorem ex_column_per_gene:
  assumes run: "process_lines exec path 1 raws init_state = Inr st"
    and g: "g @ ''_AC'' \<in> set (all_vars (synthesize (normalize st)))"
  shows "take (length (columns st)) (columns (synthesize (normalize st))) = columns st \<and>
         length (filter (\<lambda>col. fst col = ''EX_'' @ g)
                   (drop (length (columns st)) (columns (synthesize (normalize st))))) = 1 \<and>
         (\<forall>col\<in>set (drop (length (columns st)) (columns (synthesize (normalize st)))).
            fst col = ''EX_'' @ g \<longrightarrow>
              (\<forall>r. cell col r = (if r = g @ ''_AC'' then - 1 else 0)))"
proof -
  have c: "consistent st" using run by (rule run_consistent)
  let ?gs = "sorted_list_of_set (gene_bases_of (all_vars (normalize st)))"
  let ?bs = "sorted_list_of_set (protein_bases_of (all_vars (normalize st)))"
  let ?app = "drop (length (columns st)) (columns (synthesize (normalize st)))"
  note app = appended_columns [OF c]
  have "g \<in> gene_bases_of (all_vars (normalize st))"
    using g by (simp add: final_all_vars [OF c])
  then have gs: "g \<in> set ?gs" "distinct ?gs"
    by (simp_all add: finite_gene_bases)
  have f: "filter (\<lambda>col. fst col = ''EX_'' @ g) ?app = [ex_column g]"
    unfolding app(1)
    by (simp only: filter_append filter_ex_columns no_ex_among_av
        filter_eq_distinct [OF gs(2) gs(1)]) simp
  have "cell col r = (if r = g @ ''_AC'' then - 1 else 0)"
    if "col \<in> set ?app" "fst col = ''EX_'' @ g" for col r
  proof -
    from that have "col \<in> set (filter (\<lambda>col. fst col = ''EX_'' @ g) ?app)" by simp
    then have "col = ex_column g" unfolding f by simp
    then show ?thesis by (simp only: ex_column_cell)
  qed
  with app(2) f show ?thesis by simp
qed

theorem ex_column_per_gene_witness:
  "process_lines (parser_printing ''PRINTING RULES:\<newline>G1: 1 A_AC -1 pr_B\<newline>'') ''parser'' 1
       [''G1: x''] init_state
     = Inr \<lparr>columns = [(''G1'', [(''A_AC'', 1), (''pr_B'', - 1)])],
            all_vars = [''A_AC'', ''pr_B''],
            var_index = [(''A_AC'', 0), (''pr_B'', 1)]\<rparr> \<and>
   length (filter (\<lambda>col. fst col = ''EX_A'')
     (drop 1 (columns (synthesize (normalize
        \<lparr>columns = [(''G1'', [(''A_AC'', 1), (''pr_B'', - 1)])],
         all_vars = [''A_AC'', ''pr_B''],
         var_index = [(''A_AC'', 0), (''pr_B'', 1)]\<rparr>))))) = 1"
proof -
  let ?st = "\<lparr>columns = [(''G1'', [(''A_AC'', 1), (''pr_B'', - 1)])],
              all_vars = [''A_AC'', ''pr_B''],
              var_index = [(''A_AC'', 0), (''pr_B'', 1)]\<rparr>"
  have run: "process_lines (parser_printing ''PRINTING RULES:\<newline>G1: 1 A_AC -1 pr_B\<newline>'')
       ''parser'' 1 [''G1: x''] init_state = Inr ?st"
    by code_simp
  have g: "''A'' @ ''_AC'' \<in> set (all_vars (synthesize (normalize ?st)))"
    by code_simp
  from ex_column_per_gene [OF run g] run show ?thesis by simp
qed

lemma observed_in_final:
  assumes "consistent st"
  shows "set (all_vars st) \<subseteq> set (all_vars (synthesize (normalize st)))"
  unfolding final_all_vars [OF assms] normalize_vars [OF assms] by blast

text \<open>
  \<^bold>\<open>C4.\<close>  For every protein base \<open>b\<close> of the final variable set (a non-empty base of one
  of its variables), exactly one of the appended columns is labelled \<open>AV_b\<close>: the column is
  not skipped.  Its mapping is the one the loop over the three candidate rows builds;
  it is not empty, and it holds \<open>+1\<close> for \<open>pr_b\<close> and for \<open>NOT_pr_b\<close>.  The step of the
  loop for \<open>b\<close> appends the column in every state the loop can be in (the normalised
  state with any list of columns): the branch that skips it is never taken.
\<close>

theorem av_column_never_skipped:
  assumes run: "process_lines exec path 1 raws init_state = Inr st"
    and v: "v \<in> set (all_vars (synthesize (normalize st)))"
    and pb: "protein_base v = Some b" and ne: "b \<noteq> []"
  shows "filter (\<lambda>col. fst col = ''AV_'' @ b)
           (drop (length (columns st)) (columns (synthesize (normalize st))))
           = [(''AV_'' @ b, av_mapping b (normalize st))] \<and>
         av_mapping b (normalize st) \<noteq> [] \<and>
         map_of (av_mapping b (normalize st)) (''pr_'' @ b) = Some 1 \<and>
         map_of (av_mapping b (normalize st)) (''NOT_pr_'' @ b) = Some 1 \<and>
         (\<forall>cs. add_av b ((normalize st)\<lparr>columns := cs\<rparr>) =
                 (normalize st)\<lparr>columns := cs @ [(''AV_'' @ b, av_mapping b (normalize st))]\<rparr>)"
proof -
  have c: "consistent st" using run by (rule run_consistent)
  have cn: "consistent (normalize st)" using c by (rule normalize_consistent)
  let ?bs = "sorted_list_of_set (protein_bases_of (all_vars (normalize st)))"
  have b: "b \<in> protein_bases_of (all_vars (normalize st))"
    using v pb ne unfolding final_all_vars [OF c] by blast
  then have bs: "b \<in> set ?bs" "distinct ?bs"
    by (simp_all add: finite_protein_bases)
  have f: "filter (\<lambda>col. fst col = ''AV_'' @ b)
             (drop (length (columns st)) (columns (synthesize (normalize st))))
           = [av_column (normalize st) b]"
    unfolding appended_columns(1) [OF c]
    by (simp only: filter_append filter_av_columns no_av_among_ex
        filter_eq_distinct [OF bs(2) bs(1)]) simp
  have rows: "dict_has (var_index (normalize st)) (''pr_'' @ b)"
    "dict_has (var_index (normalize st)) (''NOT_pr_'' @ b)"
    using normalize_rows_present [OF c b] by (simp_all only: has_var_iff [OF cn])
  have m1: "map_of (av_mapping b (normalize st)) (''pr_'' @ b) = Some 1"
    using rows(1) by (simp only: map_of_av_mapping) simp
  have m2: "map_of (av_mapping b (normalize st)) (''NOT_pr_'' @ b) = Some 1"
    using rows(2) by (simp only: map_of_av_mapping) simp
  have ne: "av_mapping b (normalize st) \<noteq> []"
    using rows(1) by (rule av_mapping_nonempty)
  have "add_av b ((normalize st)\<lparr>columns := cs\<rparr>) =
          (normalize st)\<lparr>columns := cs @ [(''AV_'' @ b, av_mapping b (normalize st))]\<rparr>" for cs
    using ne by (simp add: add_av_def Let_def)
  with f ne m1 m2 show ?thesis by (intro conjI allI)
qed

theorem av_column_never_skipped_witness:
  "process_lines (parser_printing ''PRINTING RULES:\<newline>G1: 1 NOT_A\<newline>'') ''parser'' 1
       [''G1: x''] init_state
     = Inr \<lparr>columns = [(''G1'', [(''NOT_A'', 1)])], all_vars = [''NOT_A''],
            var_index = [(''NOT_A'', 0)]\<rparr> \<and>
   protein_base ''NOT_pr_A'' = Some ''A'' \<and>
   filter (\<lambda>col. fst col = ''AV_A'')
     (drop 1 (columns (synthesize (normalize
        \<lparr>columns = [(''G1'', [(''NOT_A'', 1)])], all_vars = [''NOT_A''],
         var_index = [(''NOT_A'', 0)]\<rparr>))))
     = [(''AV_A'', [(''pr_A'', 1), (''NOT_pr_A'', 1), (''NOT_A'', 1)])]"
proof -
  let ?st = "\<lparr>columns = [(''G1'', [(''NOT_A'', 1)])], all_vars = [''NOT_A''],
              var_index = [(''NOT_A'', 0)]\<rparr>"
  have run: "process_lines (parser_printing ''PRINTING RULES:\<newline>G1: 1 NOT_A\<newline>'') ''parser'' 1
       [''G1: x''] init_state = Inr ?st"
    by code_simp
  have v: "''NOT_pr_A'' \<in> set (all_vars (synthesize (normalize ?st)))"
    by code_simp
  have pb: "protein_base ''NOT_pr_A'' = Some ''A''" by code_simp
  have ne: "''A'' \<noteq> []" by simp
  have m: "av_mapping ''A'' (normalize ?st) = [(''pr_A'', 1), (''NOT_pr_A'', 1), (''NOT_A'', 1)]"
    by code_simp
  have len: "length (columns ?st) = 1" by simp
  note t = av_column_never_skipped [OF run v pb ne, unfolded len m]
  from run pb t [THEN conjunct1] show ?thesis by simp
qed

lemma scan_output_prefix: "prefix (columns st) (columns (scan_output ls capturing st))"
proof (induction ls arbitrary: capturing st)
  case Nil
  then show ?case by simp
next
  case (Cons l ls)
  have grow: "prefix (columns st)
       (columns (scan_output ls cap (st'\<lparr>columns := columns st' @ [(label, m)]\<rparr>)))"
    if "add_pairs pairs [] st = (m, st')" for pairs m st' label cap
  proof -
    have "columns st' = columns st"
      using add_pairs_columns [of pairs "[]" st] that by simp
    then have "prefix (columns st) (columns (st'\<lparr>columns := columns st' @ [(label, m)]\<rparr>))"
      by simp
    then show ?thesis using Cons.IH by (rule prefix_order.trans)
  qed
  show ?case
    by (auto simp: Let_def Cons.IH grow split: option.splits prod.splits)
qed

lemma process_lines_prefix:
  "process_lines exec path idx raws st = Inr st' \<Longrightarrow> prefix (columns st) (columns st')"
proof (induction raws arbitrary: idx st)
  case Nil
  then show ?case by simp
next
  case (Cons raw raws)
  show ?case
  proof (cases "prepare_line raw")
    case None
    with Cons.prems have "process_lines exec path (idx + 1) raws st = Inr st'" by simp
    then show ?thesis by (rule Cons.IH)
  next
    case (Some line)
    let ?st = "scan_output (splitlines (stdout (run_parser exec path line))) False st"
    from Cons.prems Some have "process_lines exec path (idx + 1) raws ?st = Inr st'"
      by (auto simp: Let_def split: if_splits)
    then have "prefix (columns ?st) (columns st')" by (rule Cons.IH)
    with scan_output_prefix show ?thesis by (rule prefix_order.trans)
  qed
qed

lemma process_lines_append:
  "process_lines exec path idx (xs @ ys) st =
     (case process_lines exec path idx xs st of
        Inl e \<Rightarrow> Inl e
      | Inr st' \<Rightarrow> process_lines exec path (idx + length xs) ys st')"
proof (induction xs arbitrary: idx st)
  case Nil
  then show ?case by simp
next
  case (Cons x xs)
  show ?case
    by (cases "prepare_line x") (simp_all add: Let_def Cons.IH split: sum.splits)
qed

lemma sort_strict: "distinct xs \<Longrightarrow> sorted_wrt (<) (sort xs)"
  by (simp add: strict_sorted_iff)

text \<open>
  \<^bold>\<open>C7.\<close>  After a successful run the printed matrix is a header line, \<open>variable\<close> and
  the column labels, and one line for each variable: the variable and the cells of its
  row, the value of the column's mapping or 0.  Everything is joined by tabs.  The rows
  are the variables in strictly ascending lexicographic order.  The columns are the
  rule-derived columns as accumulated (the columns gathered from the first lines of the
  rules file always are a prefix of them), then the \<open>EX_\<close> columns in strictly ascending
  order of gene base, then the \<open>AV_\<close> columns in strictly ascending order of protein
  base.
\<close>

theorem matrix_layout:
  assumes run: "process_lines exec path 1 raws init_state = Inr st"
  shows "\<exists>rows gs bs.
     sorted_wrt (<) rows \<and> set rows = set (all_vars (synthesize (normalize st))) \<and>
     sorted_wrt (<) gs \<and> set gs = {g. g @ ''_AC'' \<in> set (all_vars (synthesize (normalize st)))} \<and>
     sorted_wrt (<) bs \<and>
     set bs = {b. b \<noteq> [] \<and>
                 (\<exists>v\<in>set (all_vars (synthesize (normalize st))). protein_base v = Some b)} \<and>
     map fst (columns (synthesize (normalize st))) =
       map fst (columns st) @ map (\<lambda>g. ''EX_'' @ g) gs @ map (\<lambda>b. ''AV_'' @ b) bs \<and>
     take (length (columns st)) (columns (synthesize (normalize st))) = columns st \<and>
     (\<forall>xs ys st1. raws = xs @ ys \<and> process_lines exec path 1 xs init_state = Inr st1
        \<longrightarrow> prefix (columns st1) (columns st)) \<and>
     out_text (main_body exec path raws) =
       printed
         ((''variable'' @ [TAB] @ join [TAB] (map fst (columns (synthesize (normalize st)))))
          # map (\<lambda>r. join [TAB]
                   (r # map (\<lambda>col. py_str (case map_of (snd col) r of None \<Rightarrow> 0 | Some x \<Rightarrow> x))
                          (columns (synthesize (normalize st)))))
              rows)"
proof -
  let ?fs = "synthesize (normalize st)"
  let ?rows = "sort (all_vars ?fs)"
  let ?gs = "sorted_list_of_set (gene_bases_of (all_vars (normalize st)))"
  let ?bs = "sorted_list_of_set (protein_bases_of (all_vars (normalize st)))"
  have c: "consistent st" using run by (rule run_consistent)
  have cn: "consistent (normalize st)" using c by (rule normalize_consistent)
  have av: "all_vars ?fs = all_vars (normalize st)" using c by (rule final_all_vars)
  have "distinct (all_vars ?fs)" using cn by (simp add: av consistent_def)
  then have r1: "sorted_wrt (<) ?rows" by (rule sort_strict)
  have r2: "set ?rows = set (all_vars ?fs)" by simp
  have g1: "sorted_wrt (<) ?gs" by simp
  have g2: "set ?gs = {g. g @ ''_AC'' \<in> set (all_vars ?fs)}"
    by (simp add: av finite_gene_bases)
  have b1: "sorted_wrt (<) ?bs" by simp
  have b2: "set ?bs = {b. b \<noteq> [] \<and> (\<exists>v\<in>set (all_vars ?fs). protein_base v = Some b)}"
    by (simp add: av finite_protein_bases)
  have cols: "map fst (columns ?fs) =
      map fst (columns st) @ map (\<lambda>g. ''EX_'' @ g) ?gs @ map (\<lambda>b. ''AV_'' @ b) ?bs"
    by (simp add: final_state_eq [OF c] comp_def)
  have tk: "take (length (columns st)) (columns ?fs) = columns st"
    using c by (rule appended_columns(2))
  have acc: "prefix (columns st1) (columns st)"
    if "raws = xs @ ys" "process_lines exec path 1 xs init_state = Inr st1" for xs ys st1
  proof -
    from run that have "process_lines exec path (1 + length xs) ys st1 = Inr st"
      by (simp add: process_lines_append)
    then show ?thesis by (rule process_lines_prefix)
  qed
  have out: "out_text (main_body exec path raws) =
       printed
         ((''variable'' @ [TAB] @ join [TAB] (map fst (columns ?fs)))
          # map (\<lambda>r. join [TAB]
                   (r # map (\<lambda>col. py_str (case map_of (snd col) r of None \<Rightarrow> 0 | Some x \<Rightarrow> x))
                          (columns ?fs)))
              ?rows)"
    by (simp add: main_body_success [OF run] emit_def header_line_def row_line_def cell_def
        dict_get_def cong: map_cong)
  from r1 r2 g1 g2 b1 b2 cols tk acc out show ?thesis by blast
qed

theorem matrix_layout_witness:
  "process_lines (parser_printing ''PRINTING RULES:\<newline>G1: 1 A_AC -1 pr_B\<newline>'') ''parser'' 1
       [''G1: x''] init_state
     = Inr \<lparr>columns = [(''G1'', [(''A_AC'', 1), (''pr_B'', - 1)])],
            all_vars = [''A_AC'', ''pr_B''],
            var_index = [(''A_AC'', 0), (''pr_B'', 1)]\<rparr> \<and>
   (\<exists>rows gs bs.
      sorted_wrt (<) rows \<and> set rows = {''A_AC'', ''pr_B'', ''NOT_pr_B''} \<and>
      sorted_wrt (<) gs \<and> sorted_wrt (<) bs \<and>
      map fst (columns (synthesize (normalize
        \<lparr>columns = [(''G1'', [(''A_AC'', 1), (''pr_B'', - 1)])],
         all_vars = [''A_AC'', ''pr_B''],
         var_index = [(''A_AC'', 0), (''pr_B'', 1)]\<rparr>)))
        = ''G1'' # map (\<lambda>g. ''EX_'' @ g) gs @ map (\<lambda>b. ''AV_'' @ b) bs)"
proof -
  let ?st = "\<lparr>columns = [(''G1'', [(''A_AC'', 1), (''pr_B'', - 1)])],
              all_vars = [''A_AC'', ''pr_B''],
              var_index = [(''A_AC'', 0), (''pr_B'', 1)]\<rparr>"
  have run: "process_lines (parser_printing ''PRINTING RULES:\<newline>G1: 1 A_AC -1 pr_B\<newline>'')
       ''parser'' 1 [''G1: x''] init_state = Inr ?st"
    by code_simp
  have vars: "all_vars (synthesize (normalize ?st)) = [''A_AC'', ''pr_B'', ''NOT_pr_B'']"
    by code_simp
  from matrix_layout [OF run] obtain rows gs bs where
    f: "sorted_wrt (<) rows" "set rows = set (all_vars (synthesize (normalize ?st)))"
    "sorted_wrt (<) gs" "sorted_wrt (<) bs"
    "map fst (columns (synthesize (normalize ?st))) =
       map fst (columns ?st) @ map (\<lambda>g. ''EX_'' @ g) gs @ map (\<lambda>b. ''AV_'' @ b) bs"
    by (elim exE conjE)
  have s2: "set rows = {''A_AC'', ''pr_B'', ''NOT_pr_B''}"
    unfolding f(2) vars by simp
  have cols: "map fst (columns (synthesize (normalize ?st)))
        = ''G1'' # map (\<lambda>g. ''EX_'' @ g) gs @ map (\<lambda>b. ''AV_'' @ b) bs"
    unfolding f(5) by simp
  show ?thesis
    by (intro conjI exI [of _ rows] exI [of _ gs] exI [of _ bs])
      (fact run f(1) s2 f(3) f(4) cols)+
qed

text \<open>
  \<^bold>\<open>C10.\<close>  The variables \<open>pr_\<close>, \<open>NOT_pr_\<close> and \<open>NOT_\<close> have the empty string as their
  derived base, which the test \<open>if b:\<close> takes as no base: normalisation adds neither a
  row \<open>pr_\<close> nor a row \<open>NOT_pr_\<close> (each is a row afterwards only if it was observed), and
  none of the appended columns is labelled \<open>AV_\<close>.
\<close>

theorem empty_base_ignored:
  assumes run: "process_lines exec path 1 raws init_state = Inr st"
  shows "protein_base ''pr_'' = Some [] \<and> protein_base ''NOT_pr_'' = Some [] \<and>
         protein_base ''NOT_'' = Some [] \<and> \<not> truthy (Some []) \<and>
         (''pr_'' \<in> set (all_vars (synthesize (normalize st))) \<longleftrightarrow> ''pr_'' \<in> set (all_vars st)) \<and>
         (''NOT_pr_'' \<in> set (all_vars (synthesize (normalize st)))
            \<longleftrightarrow> ''NOT_pr_'' \<in> set (all_vars st)) \<and>
         ''AV_'' \<notin> set (map fst (drop (length (columns st))
                                  (columns (synthesize (normalize st)))))"
proof -
  have c: "consistent st" using run by (rule run_consistent)
  have pb: "protein_base ''pr_'' = Some []" "protein_base ''NOT_pr_'' = Some []"
    "protein_base ''NOT_'' = Some []"
    by (simp_all add: protein_base_def endswith_def startswith_def)
  have new: "x \<noteq> ''pr_'' @ b \<and> x \<noteq> ''NOT_pr_'' @ b"
    if "x = ''pr_'' \<or> x = ''NOT_pr_''" "b \<noteq> []" for x b
    using that by (cases b) auto
  have r: "x \<in> set (all_vars (synthesize (normalize st))) \<longleftrightarrow> x \<in> set (all_vars st)"
    if "x = ''pr_'' \<or> x = ''NOT_pr_''" for x
  proof
    assume "x \<in> set (all_vars (synthesize (normalize st)))"
    then consider "x \<in> set (all_vars st)"
      | b where "b \<noteq> []" "x = ''pr_'' @ b \<or> x = ''NOT_pr_'' @ b"
      unfolding final_all_vars [OF c] normalize_vars [OF c] by blast
    then show "x \<in> set (all_vars st)"
    proof cases
      case 1
      then show ?thesis .
    next
      case 2
      with new [OF that, of b] show ?thesis by (simp only: simp_thms)
    qed
  next
    assume "x \<in> set (all_vars st)"
    then show "x \<in> set (all_vars (synthesize (normalize st)))"
      using observed_in_final [OF c] by (rule rev_subsetD)
  qed
  have av: "''AV_'' \<notin> set (map fst (drop (length (columns st))
                                  (columns (synthesize (normalize st)))))"
  proof
    assume "''AV_'' \<in> set (map fst (drop (length (columns st))
                                  (columns (synthesize (normalize st)))))"
    then have "(\<exists>g. ''AV_'' = ''EX_'' @ g) \<or>
               (\<exists>b\<in>protein_bases_of (all_vars (normalize st)). ''AV_'' = ''AV_'' @ b)"
      unfolding appended_columns(1) [OF c]
      by (simp add: finite_protein_bases image_iff del: append.simps) blast
    then show False by auto
  qed
  from pb r [of "''pr_''"] r [of "''NOT_pr_''"] av show ?thesis by simp
qed

theorem empty_base_ignored_witness:
  "process_lines (parser_printing ''PRINTING RULES:\<newline>G1: 1 pr_ 2 NOT_\<newline>'') ''parser'' 1
       [''G1: x''] init_state
     = Inr \<lparr>columns = [(''G1'', [(''pr_'', 1), (''NOT_'', 2)])],
            all_vars = [''pr_'', ''NOT_''],
            var_index = [(''pr_'', 0), (''NOT_'', 1)]\<rparr> \<and>
   ''NOT_pr_'' \<notin> set (all_vars (synthesize (normalize
       \<lparr>columns = [(''G1'', [(''pr_'', 1), (''NOT_'', 2)])],
        all_vars = [''pr_'', ''NOT_''],
        var_index = [(''pr_'', 0), (''NOT_'', 1)]\<rparr>))) \<and>
   ''AV_'' \<notin> set (map fst (drop 1 (columns (synthesize (normalize
       \<lparr>columns = [(''G1'', [(''pr_'', 1), (''NOT_'', 2)])],
        all_vars = [''pr_'', ''NOT_''],
        var_index = [(''pr_'', 0), (''NOT_'', 1)]\<rparr>)))))"
proof -
  let ?st = "\<lparr>columns = [(''G1'', [(''pr_'', 1), (''NOT_'', 2)])],
              all_vars = [''pr_'', ''NOT_''],
              var_index = [(''pr_'', 0), (''NOT_'', 1)]\<rparr>"
  have run: "process_lines (parser_printing ''PRINTING RULES:\<newline>G1: 1 pr_ 2 NOT_\<newline>'')
       ''parser'' 1 [''G1: x''] init_state = Inr ?st"
    by code_simp
  have obs: "''NOT_pr_'' \<notin> set (all_vars ?st)" by simp
  have len: "length (columns ?st) = 1" by simp
  note t = empty_base_ignored [OF run, unfolded len]
  from t obs have "''NOT_pr_'' \<notin> set (all_vars (synthesize (normalize ?st)))"
    by (simp only: simp_thms)
  moreover from t
  have "''AV_'' \<notin> set (map fst (drop 1 (columns (synthesize (normalize ?st)))))"
    by (elim conjE)
  ultimately show ?thesis using run by (intro conjI)
qed

lemma process_lines_all_ok:
  assumes "\<forall>l\<in>set xs. \<forall>rule. prepare_line l = Some rule \<longrightarrow>
             returncode (exec [path, ''--rule'', rule]) = 0"
  shows "\<exists>st'. process_lines exec path idx xs st = Inr st'"
  using assms
proof (induction xs arbitrary: idx st)
  case Nil
  then show ?case by simp
next
  case (Cons x xs)
  then have rest: "\<And>idx st. \<exists>st'. process_lines exec path idx xs st = Inr st'"
    by simp
  show ?case
  proof (cases "prepare_line x")
    case None
    with rest show ?thesis by simp
  next
    case (Some rule)
    with Cons.prems have "returncode (exec [path, ''--rule'', rule]) = 0" by simp
    with Some rest show ?thesis by (simp add: Let_def run_parser_def)
  qed
qed

lemma split_once_first:
  assumes "c \<notin> set head"
  shows "split_once c (head @ c # tail) = (head, tail)"
proof -
  have "takeWhile (\<lambda>x. x \<noteq> c) (head @ c # tail) = head @ takeWhile (\<lambda>x. x \<noteq> c) (c # tail)"
    using assms by (intro takeWhile_append2) auto
  moreover
  have "dropWhile (\<lambda>x. x \<noteq> c) (head @ c # tail) = dropWhile (\<lambda>x. x \<noteq> c) (c # tail)"
    using assms by (intro dropWhile_append2) auto
  ultimately show ?thesis by (simp add: split_once_def)
qed

lemma prepare_line_SomeD:
  assumes "prepare_line raw = Some rule"
  shows "rstrip_chars [CR] (strip raw) \<noteq> []"
    and "\<not> startswith (rstrip_chars [CR] (strip raw)) ''#''"
    and "CHR '':'' \<notin> set (rstrip_chars [CR] (strip raw)) \<Longrightarrow>
           rule = rstrip_chars [CR] (strip raw)"
    and "rstrip_chars [CR] (strip raw) = head @ '':'' @ tail \<Longrightarrow> CHR '':'' \<notin> set head \<Longrightarrow>
           rule = strip head @ '' '' @ strip tail"
proof -
  let ?line = "rstrip_chars [CR] (strip raw)"
  from assms have a: "\<not> (?line = [] \<or> startswith ?line ''#'')"
    unfolding prepare_line_def Let_def by (auto split: if_splits)
  then show "?line \<noteq> []" and "\<not> startswith ?line ''#''" by simp_all
  show "rule = ?line" if "CHR '':'' \<notin> set ?line"
    using assms a that unfolding prepare_line_def Let_def by (simp only: if_False option.inject)
  show "rule = strip head @ '' '' @ strip tail"
    if l: "?line = head @ '':'' @ tail" and h: "CHR '':'' \<notin> set head"
  proof -
    have col: "CHR '':'' \<in> set ?line" unfolding l by simp
    have sp: "split_once (CHR '':'') ?line = (head, tail)"
      unfolding l using split_once_first [OF h, of tail] by simp
    from assms a col sp show ?thesis
      unfolding prepare_line_def Let_def
      by (simp only: if_False if_True prod.case option.inject)
  qed
qed

text \<open>
  \<^bold>\<open>C2\<close> (amended).  Let the parser succeed on every rule of the lines \<open>pre\<close> and end
  with a return code other than 0 on the rule of the next line, which then is line
  \<open>length pre + 1\<close> of the file.  Whatever lines follow, the run ends with that return
  code and prints no matrix.  The error stream gets one message: it holds the return
  code, the text \<open>line\<close> with the 1-based number of the line, the rule string of the line
  as it was handed to the parser, and the parser's standard error.  The rule string is
  the stripped line where the line has no colon; where it has one, it is the text before
  the first colon, one space and the text behind that colon, both stripped.
\<close>

theorem parser_failure_fail_fast:
  assumes pre: "\<forall>l\<in>set pre. \<forall>r. prepare_line l = Some r \<longrightarrow>
                  returncode (exec [path, ''--rule'', r]) = 0"
    and line: "prepare_line raw = Some rule"
    and rc: "returncode (exec [path, ''--rule'', rule]) = rc" "rc \<noteq> 0"
  shows "main_body exec path (pre @ raw # post) =
           \<lparr>exit_code = rc,
            err_text = ''Parser failed (exit '' @ py_str rc @ '') for line ''
                @ py_str (int (length pre + 1)) @ '': '' @ rule @ [LF] @ ''STDERR:'' @ [LF]
                @ stderr (exec [path, ''--rule'', rule]) @ [LF],
            out_text = []\<rparr> \<and>
         sublist (''line '' @ py_str (int (length pre + 1)))
           (err_text (main_body exec path (pre @ raw # post))) \<and>
         sublist rule (err_text (main_body exec path (pre @ raw # post))) \<and>
         (CHR '':'' \<notin> set (rstrip_chars [CR] (strip raw)) \<longrightarrow>
            rule = rstrip_chars [CR] (strip raw)) \<and>
         (\<forall>head tail. rstrip_chars [CR] (strip raw) = head @ '':'' @ tail \<and> CHR '':'' \<notin> set head
            \<longrightarrow> rule = strip head @ '' '' @ strip tail)"
proof -
  from process_lines_all_ok [OF pre] obtain st' where
    ok: "process_lines exec path 1 pre init_state = Inr st'" by blast
  have "process_lines exec path 1 (pre @ raw # post) init_state =
          Inl (rc, failure_message rc (1 + length pre) rule (stderr (exec [path, ''--rule'', rule])))"
    using line rc
    by (simp only: process_lines_append ok sum.case) (simp add: Let_def run_parser_def)
  then have eq: "main_body exec path (pre @ raw # post) =
           \<lparr>exit_code = rc,
            err_text = ''Parser failed (exit '' @ py_str rc @ '') for line ''
                @ py_str (int (length pre + 1)) @ '': '' @ rule @ [LF] @ ''STDERR:'' @ [LF]
                @ stderr (exec [path, ''--rule'', rule]) @ [LF],
            out_text = []\<rparr>"
    by (simp add: main_body_def failure_message_def printed_def)
  have "sublist (''line '' @ py_str (int (length pre + 1)))
          ((''Parser failed (exit '' @ py_str rc @ '') for '') @
           (''line '' @ py_str (int (length pre + 1))) @
           ('': '' @ rule @ [LF] @ ''STDERR:'' @ [LF] @ stderr (exec [path, ''--rule'', rule]) @ [LF]))"
    by (rule sublist_appendI)
  then have s1: "sublist (''line '' @ py_str (int (length pre + 1)))
           (err_text (main_body exec path (pre @ raw # post)))"
    unfolding eq by simp
  have "sublist rule
          ((''Parser failed (exit '' @ py_str rc @ '') for line ''
                @ py_str (int (length pre + 1)) @ '': '') @ rule @
           ([LF] @ ''STDERR:'' @ [LF] @ stderr (exec [path, ''--rule'', rule]) @ [LF]))"
    by (rule sublist_appendI)
  then have s2: "sublist rule (err_text (main_body exec path (pre @ raw # post)))"
    unfolding eq by simp
  note d = prepare_line_SomeD [OF line]
  have nocolon: "CHR '':'' \<notin> set (rstrip_chars [CR] (strip raw)) \<longrightarrow>
            rule = rstrip_chars [CR] (strip raw)"
    using d(3) by (rule impI)
  have colon: "\<forall>head tail. rstrip_chars [CR] (strip raw) = head @ '':'' @ tail \<and> CHR '':'' \<notin> set head
            \<longrightarrow> rule = strip head @ '' '' @ strip tail"
    using d(4) by (intro allI impI) (elim conjE)
  from eq s1 s2 nocolon colon show ?thesis by (intro conjI)
qed

theorem parser_failure_fail_fast_witness:
  "prepare_line ''BAD: rule'' = Some ''BAD rule'' \<and>
   main_body (parser_rejecting ''BAD rule'' 3 ''syntax error'' ''PRINTING RULES:\<newline>G1: 1 pr_A\<newline>'')
       ''parser'' [''# rules'', [], ''G1: (1 pr_A)'', ''G2 x'', ''BAD: rule'', ''G3: y'']
     = \<lparr>exit_code = 3,
        err_text = ''Parser failed (exit 3) for line 5: BAD rule\<newline>STDERR:\<newline>syntax error\<newline>'',
        out_text = []\<rparr>"
proof -
  let ?exec = "parser_rejecting ''BAD rule'' 3 ''syntax error'' ''PRINTING RULES:\<newline>G1: 1 pr_A\<newline>''"
  let ?pre = "[''# rules'', [], ''G1: (1 pr_A)'', ''G2 x'']"
  have p: "prepare_line ''# rules'' = None" "prepare_line [] = None"
    "prepare_line ''G1: (1 pr_A)'' = Some ''G1 (1 pr_A)''" "prepare_line ''G2 x'' = Some ''G2 x''"
    by code_simp+
  have pre: "\<forall>l\<in>set ?pre. \<forall>r. prepare_line l = Some r \<longrightarrow>
               returncode (?exec [''parser'', ''--rule'', r]) = 0"
    by (simp add: p parser_rejecting_def)
  have line: "prepare_line ''BAD: rule'' = Some ''BAD rule''" by code_simp
  have rc: "returncode (?exec [''parser'', ''--rule'', ''BAD rule'']) = 3" "(3::int) \<noteq> 0"
    by (simp_all add: parser_rejecting_def)
  have err: "stderr (?exec [''parser'', ''--rule'', ''BAD rule'']) = ''syntax error''"
    by (simp add: parser_rejecting_def)
  have n: "py_str 3 = ''3''" "py_str (int (length ?pre + 1)) = ''5''"
    by code_simp+
  have l: "?pre @ ''BAD: rule'' # [''G3: y''] =
      [''# rules'', [], ''G1: (1 pr_A)'', ''G2 x'', ''BAD: rule'', ''G3: y'']" by simp
  note t = parser_failure_fail_fast [OF pre line rc, of "[''G3: y'']", unfolded n err l]
  from t [THEN conjunct1] have "main_body ?exec ''parser''
       [''# rules'', [], ''G1: (1 pr_A)'', ''G2 x'', ''BAD: rule'', ''G3: y'']
     = \<lparr>exit_code = 3,
        err_text = ''Parser failed (exit 3) for line 5: BAD rule\<newline>STDERR:\<newline>syntax error\<newline>'',
        out_text = []\<rparr>"
    by (simp add: LF_def)
  with line show ?thesis by (intro conjI)
qed

text \<open>
  \<^bold>\<open>C2\<close> as stated fails on a line with a colon: the message for the line
  \<open>BAD: rule\<close> holds the rewritten \<open>BAD rule\<close> and not the text of the line.
\<close>

theorem parser_failure_line_text_counterexample:
  "main_body (parser_rejecting ''BAD rule'' 3 ''syntax error'' [])
       ''parser'' [''BAD: rule\<newline>'']
     = \<lparr>exit_code = 3,
        err_text = ''Parser failed (exit 3) for line 1: BAD rule\<newline>STDERR:\<newline>syntax error\<newline>'',
        out_text = []\<rparr> \<and>
   \<not> sublist ''BAD: rule''
       (err_text (main_body (parser_rejecting ''BAD rule'' 3 ''syntax error'' [])
          ''parser'' [''BAD: rule\<newline>'']))"
  by code_simp

lemma process_lines_cong:
  assumes "\<forall>raw\<in>set raws. \<forall>rule. prepare_line raw = Some rule \<longrightarrow>
             exec1 [path, ''--rule'', rule] = exec2 [path, ''--rule'', rule]"
  shows "process_lines exec1 path idx raws st = process_lines exec2 path idx raws st"
  using assms
proof (induction raws arbitrary: idx st)
  case Nil
  then show ?case by simp
next
  case (Cons raw raws)
  then have rest: "\<And>idx st. process_lines exec1 path idx raws st
                      = process_lines exec2 path idx raws st"
    by simp
  show ?case
  proof (cases "prepare_line raw")
    case None
    then show ?thesis by (simp add: rest)
  next
    case (Some rule)
    with Cons.prems have "exec1 [path, ''--rule'', rule] = exec2 [path, ''--rule'', rule]"
      by simp
    with Some show ?thesis by (simp add: rest run_parser_def Let_def)
  qed
qed

text \<open>
  \<^bold>\<open>C8.\<close>  Let a line of the rules file, stripped, be neither empty nor a comment and
  read \<open>head:tail\<close> with no colon in \<open>head\<close>.  Then the rule string is \<open>head\<close>, one space and
  \<open>tail\<close>, both stripped; the colons of \<open>tail\<close> stay.  The loop over the lines calls the
  parser for this line with the argument vector that holds the path of the parser,
  \<open>--rule\<close> and that string: the answer to this vector decides whether the run fails
  here, with a message that names the string, or goes on with the standard output of
  that answer.  So the line is handled the same by any two parsers that answer alike on
  the vector.
\<close>

theorem label_colon_rewrite:
  assumes line: "rstrip_chars [CR] (strip raw) = head @ '':'' @ tail"
    and first: "CHR '':'' \<notin> set head"
    and nc: "\<not> startswith (head @ '':'' @ tail) ''#''"
  shows "prepare_line raw = Some (strip head @ '' '' @ strip tail) \<and>
         run_parser exec path (strip head @ '' '' @ strip tail)
           = exec [path, ''--rule'', strip head @ '' '' @ strip tail] \<and>
         process_lines exec path idx (raw # rest) st =
           (if returncode (exec [path, ''--rule'', strip head @ '' '' @ strip tail]) \<noteq> 0
            then Inl (returncode (exec [path, ''--rule'', strip head @ '' '' @ strip tail]),
                      failure_message
                        (returncode (exec [path, ''--rule'', strip head @ '' '' @ strip tail]))
                        idx (strip head @ '' '' @ strip tail)
                        (stderr (exec [path, ''--rule'', strip head @ '' '' @ strip tail])))
            else process_lines exec path (idx + 1) rest
                   (scan_output
                      (splitlines (stdout (exec [path, ''--rule'', strip head @ '' '' @ strip tail])))
                      False st)) \<and>
         (\<forall>exec'. exec' [path, ''--rule'', strip head @ '' '' @ strip tail]
                    = exec [path, ''--rule'', strip head @ '' '' @ strip tail]
            \<longrightarrow> process_lines exec' path idx [raw] st = process_lines exec path idx [raw] st)"
proof -
  let ?rule = "strip head @ '' '' @ strip tail"
  have ne: "head @ '':'' @ tail \<noteq> []" by simp
  have col: "CHR '':'' \<in> set (head @ '':'' @ tail)" by simp
  have sp: "split_once (CHR '':'') (head @ '':'' @ tail) = (head, tail)"
    using split_once_first [OF first, of tail] by simp
  have p: "prepare_line raw = Some ?rule"
    unfolding prepare_line_def line Let_def
    by (simp only: ne nc col sp if_True if_False simp_thms prod.case)
  have r: "run_parser exec path ?rule = exec [path, ''--rule'', ?rule]"
    by (rule run_parser_def)
  have step: "process_lines exec path idx (raw # rest) st =
           (if returncode (exec [path, ''--rule'', ?rule]) \<noteq> 0
            then Inl (returncode (exec [path, ''--rule'', ?rule]),
                      failure_message (returncode (exec [path, ''--rule'', ?rule])) idx ?rule
                        (stderr (exec [path, ''--rule'', ?rule])))
            else process_lines exec path (idx + 1) rest
                   (scan_output (splitlines (stdout (exec [path, ''--rule'', ?rule]))) False st))"
    by (simp only: process_lines.simps p option.case Let_def r)
  have "process_lines exec' path idx [raw] st = process_lines exec path idx [raw] st"
    if agree: "exec' [path, ''--rule'', ?rule] = exec [path, ''--rule'', ?rule]" for exec'
  proof (rule process_lines_cong)
    have "exec' [path, ''--rule'', rule] = exec [path, ''--rule'', rule]"
      if r: "prepare_line raw = Some rule" for rule
    proof -
      from r p have "rule = ?rule" by (simp only: option.inject)
      with agree show ?thesis by (simp only:)
    qed
    then show "\<forall>raw\<in>set [raw]. \<forall>rule. prepare_line raw = Some rule \<longrightarrow>
               exec' [path, ''--rule'', rule] = exec [path, ''--rule'', rule]"
      by (simp only: list.set ball_simps) blast
  qed
  with p r step show ?thesis by (intro conjI allI impI)
qed

theorem label_colon_rewrite_witness:
  "rstrip_chars [CR] (strip ''  G1:  (1 pr_A) AND x:y \<newline>'') = ''G1'' @ '':'' @ ''  (1 pr_A) AND x:y'' \<and>
   prepare_line ''  G1:  (1 pr_A) AND x:y \<newline>'' = Some ''G1 (1 pr_A) AND x:y'' \<and>
   run_parser (parser_rejecting ''G1 (1 pr_A) AND x:y'' 7 ''no'' []) ''parser'' ''G1 (1 pr_A) AND x:y''
     = parser_rejecting ''G1 (1 pr_A) AND x:y'' 7 ''no'' []
         [''parser'', ''--rule'', ''G1 (1 pr_A) AND x:y''] \<and>
   process_lines (parser_rejecting ''G1 (1 pr_A) AND x:y'' 7 ''no'' []) ''parser'' 1
       [''  G1:  (1 pr_A) AND x:y \<newline>'', ''G2: y''] init_state
     = Inl (7, ''Parser failed (exit 7) for line 1: G1 (1 pr_A) AND x:y\<newline>STDERR:\<newline>no'')"
proof -
  let ?exec = "parser_rejecting ''G1 (1 pr_A) AND x:y'' 7 ''no'' []"
  have line: "rstrip_chars [CR] (strip ''  G1:  (1 pr_A) AND x:y \<newline>'')
                = ''G1'' @ '':'' @ ''  (1 pr_A) AND x:y''"
    by code_simp
  have first: "CHR '':'' \<notin> set ''G1''" by simp
  have nc: "\<not> startswith (''G1'' @ '':'' @ ''  (1 pr_A) AND x:y'') ''#''"
    by code_simp
  have s: "strip ''G1'' @ '' '' @ strip ''  (1 pr_A) AND x:y'' = ''G1 (1 pr_A) AND x:y''"
    by code_simp
  have a: "?exec [''parser'', ''--rule'', ''G1 (1 pr_A) AND x:y'']
             = \<lparr>returncode = 7, stdout = [], stderr = ''no''\<rparr>"
    by code_simp
  have m: "failure_message 7 1 ''G1 (1 pr_A) AND x:y'' ''no''
             = ''Parser failed (exit 7) for line 1: G1 (1 pr_A) AND x:y\<newline>STDERR:\<newline>no''"
    by code_simp
  note t = label_colon_rewrite [OF line first nc, of ?exec "''parser''" 1 "[''G2: y'']" init_state,
      unfolded s]
  have seven: "(7::int) \<noteq> 0" by simp
  have "process_lines ?exec ''parser'' 1
       [''  G1:  (1 pr_A) AND x:y \<newline>'', ''G2: y''] init_state
     = Inl (7, ''Parser failed (exit 7) for line 1: G1 (1 pr_A) AND x:y\<newline>STDERR:\<newline>no'')"
    by (simp only: t [THEN conjunct2, THEN conjunct2, THEN conjunct1] a
        completed_process.select_convs seven not_False_eq_True if_True m)
  with line t [THEN conjunct1] t [THEN conjunct2, THEN conjunct1]
  show ?thesis by (intro conjI)
qed

lemma py_sorted_any_order:
  assumes "finite s" and "set (order site s) = s" and "distinct (order site s)"
  shows "py_sorted order site s = sorted_list_of_set s"
proof -
  have "sorted_list_of_set (set (order site s)) = sort (remdups (order site s))"
    by (rule sorted_list_of_set_sort_remdups)
  with assms(2,3) show ?thesis
    by (simp add: py_sorted_def distinct_remdups_id)
qed

lemma normalize_in_any_order:
  assumes "\<And>site s. finite s \<Longrightarrow> set (order site s) = s \<and> distinct (order site s)"
  shows "normalize_in order st = normalize st"
proof -
  have f: "finite (collect_bases (all_vars st) {})"
    by (simp add: collect_bases_eq finite_protein_bases)
  from assms [OF f] py_sorted_any_order [OF f, of order Bases]
  show ?thesis by (simp add: normalize_in_def normalize_def)
qed

lemma synthesize_in_any_order:
  assumes "\<And>site s. finite s \<Longrightarrow> set (order site s) = s \<and> distinct (order site s)"
  shows "synthesize_in order st = synthesize st"
proof -
  have cl: "classify (all_vars st) ({}, {}) =
              (gene_bases_of (all_vars st), protein_bases_of (all_vars st))"
    by (simp add: classify_eq)
  have g: "py_sorted order Gene_bases (gene_bases_of (all_vars st))
             = sorted_list_of_set (gene_bases_of (all_vars st))"
    using assms [OF finite_gene_bases, of Gene_bases "all_vars st"]
    by (intro py_sorted_any_order finite_gene_bases) simp_all
  have p: "py_sorted order Protein_bases (protein_bases_of (all_vars st))
             = sorted_list_of_set (protein_bases_of (all_vars st))"
    using assms [OF finite_protein_bases, of Protein_bases "all_vars st"]
    by (intro py_sorted_any_order finite_protein_bases) simp_all
  show ?thesis
    unfolding synthesize_in_def synthesize_def cl by (simp only: prod.case g p)
qed

lemma main_in_any_order:
  assumes "\<And>site s. finite s \<Longrightarrow> set (order site s) = s \<and> distinct (order site s)"
  shows "main_in order files read_lines exec parser_path rules_path
           = main files read_lines exec parser_path rules_path"
  by (simp add: main_in_def main_def main_body_in_def main_body_def
      normalize_in_any_order [OF assms] synthesize_in_any_order [OF assms]
      split: sum.splits)

text \<open>
  \<^bold>\<open>C9.\<close>  Take two runs on the same rules file.  Their sets may be iterated in
  different orders, each order yielding every element of a set once, and their parsers
  answer alike on the rule strings of the lines of the file.  Then the two runs give the
  same result: the same exit code, the same error text and the same matrix text, byte
  for byte.  It is the result of \<open>main\<close>, where the sets are read in ascending order.
\<close>

theorem deterministic_output:
  assumes o1: "\<And>site s. finite s \<Longrightarrow> set (order1 site s) = s \<and> distinct (order1 site s)"
    and o2: "\<And>site s. finite s \<Longrightarrow> set (order2 site s) = s \<and> distinct (order2 site s)"
    and agree: "\<forall>raw\<in>set (read_lines rules_path). \<forall>rule. prepare_line raw = Some rule \<longrightarrow>
             exec1 [parser_path, ''--rule'', rule] = exec2 [parser_path, ''--rule'', rule]"
  shows "main_in order1 files read_lines exec1 parser_path rules_path
           = main_in order2 files read_lines exec2 parser_path rules_path \<and>
         main_in order1 files read_lines exec1 parser_path rules_path
           = main files read_lines exec1 parser_path rules_path"
proof -
  have "process_lines exec1 parser_path 1 (read_lines rules_path) init_state
          = process_lines exec2 parser_path 1 (read_lines rules_path) init_state"
    using agree by (rule process_lines_cong)
  then have "main files read_lines exec1 parser_path rules_path
               = main files read_lines exec2 parser_path rules_path"
    by (simp add: main_def main_body_def)
  then show ?thesis
    by (simp only: main_in_any_order [OF o1] main_in_any_order [OF o2] simp_thms)
qed

theorem deterministic_output_witness:
  "rev (sorted_list_of_set {''A'', ''B''}) \<noteq> sorted_list_of_set {''A'', ''B''} \<and>
   prepare_line ''G1: x'' = Some ''G1 x'' \<and>
   parser_printing ''PRINTING RULES:\<newline>G1: 1 pr_B 1 pr_A 1 Y_AC 1 X_AC\<newline>''
       [''parser'', ''--rule'', ''G1 x'']
     = parser_rejecting ''BAD'' 3 ''no'' ''PRINTING RULES:\<newline>G1: 1 pr_B 1 pr_A 1 Y_AC 1 X_AC\<newline>''
         [''parser'', ''--rule'', ''G1 x''] \<and>
   parser_printing ''PRINTING RULES:\<newline>G1: 1 pr_B 1 pr_A 1 Y_AC 1 X_AC\<newline>''
       [''parser'', ''--rule'', ''BAD'']
     \<noteq> parser_rejecting ''BAD'' 3 ''no'' ''PRINTING RULES:\<newline>G1: 1 pr_B 1 pr_A 1 Y_AC 1 X_AC\<newline>''
         [''parser'', ''--rule'', ''BAD''] \<and>
   main_in (\<lambda>site s. sorted_list_of_set s) (\<lambda>p. True) (\<lambda>p. [''G1: x''])
       (parser_printing ''PRINTING RULES:\<newline>G1: 1 pr_B 1 pr_A 1 Y_AC 1 X_AC\<newline>'')
       ''parser'' ''rules.txt''
     = main_in (\<lambda>site s. rev (sorted_list_of_set s)) (\<lambda>p. True) (\<lambda>p. [''G1: x''])
         (parser_rejecting ''BAD'' 3 ''no'' ''PRINTING RULES:\<newline>G1: 1 pr_B 1 pr_A 1 Y_AC 1 X_AC\<newline>'')
         ''parser'' ''rules.txt'' \<and>
   out_text (main_in (\<lambda>site s. rev (sorted_list_of_set s)) (\<lambda>p. True) (\<lambda>p. [''G1: x''])
         (parser_rejecting ''BAD'' 3 ''no'' ''PRINTING RULES:\<newline>G1: 1 pr_B 1 pr_A 1 Y_AC 1 X_AC\<newline>'')
         ''parser'' ''rules.txt'')
     = printed
         [join [TAB] [''variable'', ''G1'', ''EX_X'', ''EX_Y'', ''AV_A'', ''AV_B''],
          join [TAB] [''NOT_pr_A'', ''0'', ''0'', ''0'', ''1'', ''0''],
          join [TAB] [''NOT_pr_B'', ''0'', ''0'', ''0'', ''0'', ''1''],
          join [TAB] [''X_AC'', ''1'', ''-1'', ''0'', ''0'', ''0''],
          join [TAB] [''Y_AC'', ''1'', ''0'', ''-1'', ''0'', ''0''],
          join [TAB] [''pr_A'', ''1'', ''0'', ''0'', ''1'', ''0''],
          join [TAB] [''pr_B'', ''1'', ''0'', ''0'', ''0'', ''1'']]"
proof -
  let ?out = "''PRINTING RULES:\<newline>G1: 1 pr_B 1 pr_A 1 Y_AC 1 X_AC\<newline>''"
  let ?e1 = "parser_printing ?out"
  let ?e2 = "parser_rejecting ''BAD'' 3 ''no'' ?out"
  let ?o1 = "\<lambda>(site::set_site) (s::string set). sorted_list_of_set s"
  let ?o2 = "\<lambda>(site::set_site) (s::string set). rev (sorted_list_of_set s)"
  have r: "rev (sorted_list_of_set {''A'', ''B''}) \<noteq> sorted_list_of_set {''A'', ''B''}"
    by code_simp
  have p: "prepare_line ''G1: x'' = Some ''G1 x''" by code_simp
  have a: "?e1 [''parser'', ''--rule'', ''G1 x''] = ?e2 [''parser'', ''--rule'', ''G1 x'']"
    by code_simp
  have d: "?e1 [''parser'', ''--rule'', ''BAD''] \<noteq> ?e2 [''parser'', ''--rule'', ''BAD'']"
    by code_simp
  have "?e1 [''parser'', ''--rule'', rule] = ?e2 [''parser'', ''--rule'', rule]"
    if "prepare_line ''G1: x'' = Some rule" for rule
  proof -
    from that p have "rule = ''G1 x''" by (simp only: option.inject)
    with a show ?thesis by (simp only:)
  qed
  then have h: "\<forall>raw\<in>set ((\<lambda>p. [''G1: x'']) ''rules.txt''). \<forall>rule. prepare_line raw = Some rule \<longrightarrow>
             ?e1 [''parser'', ''--rule'', rule] = ?e2 [''parser'', ''--rule'', rule]"
    by (simp only: list.set ball_simps) blast
  have o1: "set (?o1 site s) = s \<and> distinct (?o1 site s)" if "finite s" for site :: set_site and s
    using that by simp
  have o2: "set (?o2 site s) = s \<and> distinct (?o2 site s)" if "finite s" for site :: set_site and s
    using that by simp
  note t = deterministic_output [of ?o1 ?o2 "\<lambda>p. [''G1: x'']" "''rules.txt''" ?e1 "''parser''" ?e2
      "\<lambda>p. True", OF o1 o2 h]
  have m: "out_text (main (\<lambda>p. True) (\<lambda>p. [''G1: x'']) ?e1 ''parser'' ''rules.txt'')
     = printed
         [join [TAB] [''variable'', ''G1'', ''EX_X'', ''EX_Y'', ''AV_A'', ''AV_B''],
          join [TAB] [''NOT_pr_A'', ''0'', ''0'', ''0'', ''1'', ''0''],
          join [TAB] [''NOT_pr_B'', ''0'', ''0'', ''0'', ''0'', ''1''],
          join [TAB] [''X_AC'', ''1'', ''-1'', ''0'', ''0'', ''0''],
          join [TAB] [''Y_AC'', ''1'', ''0'', ''-1'', ''0'', ''0''],
          join [TAB] [''pr_A'', ''1'', ''0'', ''0'', ''1'', ''0''],
          join [TAB] [''pr_B'', ''1'', ''0'', ''0'', ''0'', ''1'']]"
    by code_simp
  have out: "out_text (main_in ?o2 (\<lambda>p. True) (\<lambda>p. [''G1: x'']) ?e2 ''parser'' ''rules.txt'')
     = printed
         [join [TAB] [''variable'', ''G1'', ''EX_X'', ''EX_Y'', ''AV_A'', ''AV_B''],
          join [TAB] [''NOT_pr_A'', ''0'', ''0'', ''0'', ''1'', ''0''],
          join [TAB] [''NOT_pr_B'', ''0'', ''0'', ''0'', ''0'', ''1''],
          join [TAB] [''X_AC'', ''1'', ''-1'', ''0'', ''0'', ''0''],
          join [TAB] [''Y_AC'', ''1'', ''0'', ''-1'', ''0'', ''0''],
          join [TAB] [''pr_A'', ''1'', ''0'', ''0'', ''1'', ''0''],
          join [TAB] [''pr_B'', ''1'', ''0'', ''0'', ''0'', ''1'']]"
    by (simp only: t [THEN conjunct1, symmetric] t [THEN conjunct2] m)
  from r p a d t [THEN conjunct1] out show ?thesis by (intro conjI)
qed

end
